theory Spec2Isabelle
  imports Complex_Main "HOL-Library.Sublist" "HOL-Library.Log_Nat"
begin

section \<open>Strings of the runtime\<close>

text \<open>
  A JavaScript string is a sequence of UTF-16 code units, and \<open>length\<close>, \<open>slice\<close>,
  \<open>startsWith\<close>, concatenation and the regular expressions of \<open>main.mts\<close> all work code
  unit by code unit. The model writes a string as a \<open>char list\<close>, one \<open>char\<close> per code
  unit, and so covers the strings whose code units are below 256; \<open>length\<close> counts code
  units, as the source does.
\<close>

definition js_slice0 :: "string \<Rightarrow> int \<Rightarrow> string" where
  \<comment> \<open>\<open>text.slice(0, e)\<close>: a negative end counts from the end of the text, and the end is
      clamped to the text.\<close>
  "js_slice0 text e =
     (let n = int (length text);
          to = (if e < 0 then max (n + e) 0 else min e n)
      in take (nat to) text)"

definition startsWith :: "string \<Rightarrow> string \<Rightarrow> bool" where
  "startsWith text p = (take (length p) text = p)"

section \<open>Records of the source and of the output\<close>

record Token =
  token_id :: string
  token_name :: string
  token_symbol :: string
  token_decimals :: string

text \<open>
  A pool as the subgraph delivers it. \<open>tickSpacing\<close> is optional in the interface; the
  transformation tests \<open>token0\<close> and \<open>token1\<close> for absence, so both are optional here.
\<close>

record Pool =
  pool_id :: string
  feeTier :: string
  liquidity :: string
  sqrtPrice :: string
  tickSpacing :: "string option"
  createdAtTimestamp :: int
  token0 :: "Token option"
  token1 :: "Token option"

record ContractTag =
  contractAddress :: string   \<comment> \<open>key \<open>Contract Address\<close>\<close>
  publicNameTag :: string     \<comment> \<open>key \<open>Public Name Tag\<close>\<close>
  projectName :: string       \<comment> \<open>key \<open>Project Name\<close>\<close>
  websiteLink :: string       \<comment> \<open>key \<open>UI/Website Link\<close>\<close>
  publicNote :: string        \<comment> \<open>key \<open>Public Note\<close>\<close>

section \<open>The markup check\<close>

text \<open>
  \<open>containsHtmlOrMarkdown(text)\<close> is \<open>/<[^>]+>/.test(text)\<close>. At one start position the
  pattern needs \<open><\<close>, then the longest run of code units other than \<open>>\<close>, which must not
  be empty, then \<open>>\<close>. A shorter run never helps: the code unit after it is not \<open>>\<close>.
  \<open>test\<close> tries every start position from the left.
\<close>

definition tag_here :: "string \<Rightarrow> bool" where
  "tag_here text =
     (case text of
        [] \<Rightarrow> False
      | c # cs \<Rightarrow>
          c = CHR ''<'' \<and>
          (let run = takeWhile (\<lambda>x. x \<noteq> CHR ''>'') cs
           in run \<noteq> [] \<and> startsWith (drop (length run) cs) ''>''))"

fun containsHtmlOrMarkdown :: "string \<Rightarrow> bool" where
  "containsHtmlOrMarkdown [] = False"
| "containsHtmlOrMarkdown (c # cs) =
     (tag_here (c # cs) \<or> containsHtmlOrMarkdown cs)"

section \<open>The label\<close>

text \<open>
  The body of the \<open>map\<close> in \<open>transformPoolsToTags\<close>, from \<open>maxSymbolsLen\<close> to the
  safety check, as a function of the two symbols and the suffix (\<open>suffixText\<close> here).
  \<open>Math.floor(available / 2)\<close> is \<open>div\<close> on \<open>int\<close> (both round towards minus infinity);
  \<open>Math.ceil(half)\<close> and \<open>Math.floor(available - len0)\<close> are applied to integers and
  leave them as they are.
\<close>

definition tagName :: "string \<Rightarrow> string \<Rightarrow> string \<Rightarrow> string" where
  "tagName symbol0 symbol1 suffixText =
     (let maxSymbolsLen = 50 - int (length suffixText) - 1;
          symbolsText = symbol0 @ ''/'' @ symbol1;
          symbolsText' =
            (if int (length symbolsText) > maxSymbolsLen then
               (let available = maxSymbolsLen - 6;
                    half = available div 2;
                    len0 = half;
                    len1 = available - len0;
                    s0 = (if int (length symbol0) > len0
                          then js_slice0 symbol0 len0 @ ''...'' else symbol0);
                    s1 = (if int (length symbol1) > len1
                          then js_slice0 symbol1 len1 @ ''...'' else symbol1)
                in s0 @ ''/'' @ s1)
             else symbolsText);
          name = symbolsText' @ suffixText
      in if length name > 50 then js_slice0 name 50 else name)"

section \<open>Numbers read from strings\<close>

text \<open>
  \<open>parseFloat\<close> and \<open>Number\<close> read a numeric literal and round its mathematical value
  to an IEEE double. The reading is string processing and is modelled in full; the
  result keeps the exact mathematical value of the literal (\<open>MV\<close>), and the two places
  that use the double round it: the comparison with 42161 (\<open>is42161\<close>) and the
  division by 10000 (\<open>roundDouble\<close>, in the next section).
\<close>

datatype numeric = NaN | PosInfinity | NegInfinity | MV rat

definition negate :: "numeric \<Rightarrow> numeric" where
  "negate v = (case v of NaN \<Rightarrow> NaN | PosInfinity \<Rightarrow> NegInfinity
     | NegInfinity \<Rightarrow> PosInfinity | MV q \<Rightarrow> MV (- q))"

definition isWhiteSpace :: "char \<Rightarrow> bool" where
  \<comment> \<open>\<open>StrWhiteSpaceChar\<close> below 256: TAB, LF, VT, FF, CR, SP, NBSP.\<close>
  "isWhiteSpace c = ((of_char c :: int) \<in> {9, 10, 11, 12, 13, 32, 160})"

definition isDecimalDigit :: "char \<Rightarrow> bool" where
  "isDecimalDigit c = (48 \<le> (of_char c :: int) \<and> (of_char c :: int) \<le> 57)"

definition digitValue :: "char \<Rightarrow> int" where
  \<comment> \<open>the value of a digit \<open>0-9\<close>, \<open>a-z\<close> or \<open>A-Z\<close>; 36 for any other code unit\<close>
  "digitValue c =
     (let n = (of_char c :: int)
      in if 48 \<le> n \<and> n \<le> 57 then n - 48
         else if 97 \<le> n \<and> n \<le> 122 then n - 87
         else if 65 \<le> n \<and> n \<le> 90 then n - 55
         else 36)"

definition radixValue :: "int \<Rightarrow> string \<Rightarrow> int" where
  "radixValue b ds = foldl (\<lambda>a c. b * a + digitValue c) 0 ds"

definition scale10 :: "rat \<Rightarrow> int \<Rightarrow> rat" where
  \<comment> \<open>\<open>q\<close> times ten to the power \<open>e\<close>\<close>
  "scale10 q e = (if 0 \<le> e then q * 10 ^ nat e else q / 10 ^ nat (- e))"

definition scanExponent :: "string \<Rightarrow> int \<times> string" where
  \<comment> \<open>an \<open>ExponentPart\<close> at the head of the text, if one is there: its value and the rest\<close>
  "scanExponent text =
     (case text of
        [] \<Rightarrow> (0, text)
      | c # cs \<Rightarrow>
          if c = CHR ''e'' \<or> c = CHR ''E'' then
            (let neg = startsWith cs ''-'';
                 ds = (if startsWith cs ''-'' \<or> startsWith cs ''+'' then tl cs else cs);
                 run = takeWhile isDecimalDigit ds
             in if run = [] then (0, text)
                else (if neg then - radixValue 10 run else radixValue 10 run,
                      drop (length run) ds))
          else (0, text))"

definition scanUnsigned :: "string \<Rightarrow> (numeric \<times> string) option" where
  \<comment> \<open>the longest prefix that is a \<open>StrUnsignedDecimalLiteral\<close>: its value and the rest\<close>
  "scanUnsigned text =
     (if startsWith text ''Infinity'' then Some (PosInfinity, drop 8 text)
      else
        (let ip = takeWhile isDecimalDigit text;
             r1 = drop (length ip) text;
             dot = startsWith r1 ''.'';
             fp = (if dot then takeWhile isDecimalDigit (tl r1) else [])
         in if ip = [] \<and> fp = [] then None
            else
              (let r2 = (if dot then drop (length fp) (tl r1) else r1);
                   (e, r3) = scanExponent r2
               in Some (MV (scale10 (of_int (radixValue 10 (ip @ fp))) (e - int (length fp))),
                        r3))))"

definition scanDecimal :: "string \<Rightarrow> (numeric \<times> string) option" where
  \<comment> \<open>the longest prefix that is a \<open>StrDecimalLiteral\<close> (an optional sign first)\<close>
  "scanDecimal text =
     (if startsWith text ''+'' then scanUnsigned (tl text)
      else if startsWith text ''-'' then
        map_option (\<lambda>(v, r). (negate v, r)) (scanUnsigned (tl text))
      else scanUnsigned text)"

definition parseFloat :: "string \<Rightarrow> numeric" where
  \<comment> \<open>leading white space is skipped; what follows the literal is ignored\<close>
  "parseFloat text =
     (case scanDecimal (dropWhile isWhiteSpace text) of
        None \<Rightarrow> NaN
      | Some (v, _) \<Rightarrow> v)"

definition trim :: "string \<Rightarrow> string" where
  "trim text = rev (dropWhile isWhiteSpace (rev (dropWhile isWhiteSpace text)))"

definition radixLiteral :: "int \<Rightarrow> string \<Rightarrow> numeric" where
  \<comment> \<open>the digits after \<open>0x\<close>, \<open>0o\<close> or \<open>0b\<close>: at least one, each below the base\<close>
  "radixLiteral b ds =
     (if ds \<noteq> [] \<and> list_all (\<lambda>c. digitValue c < b) ds
      then MV (of_int (radixValue b ds)) else NaN)"

definition toNumber :: "string \<Rightarrow> numeric" where
  \<comment> \<open>\<open>Number(text)\<close> on a string: the whole trimmed text must be one literal, and
      the empty text is 0\<close>
  "toNumber text =
     (let t = trim text in
      if t = [] then MV 0
      else if startsWith t ''0x'' \<or> startsWith t ''0X'' then radixLiteral 16 (drop 2 t)
      else if startsWith t ''0o'' \<or> startsWith t ''0O'' then radixLiteral 8 (drop 2 t)
      else if startsWith t ''0b'' \<or> startsWith t ''0B'' then radixLiteral 2 (drop 2 t)
      else (case scanDecimal t of
              Some (v, []) \<Rightarrow> v
            | _ \<Rightarrow> NaN))"

definition is42161 :: "numeric \<Rightarrow> bool" where
  \<comment> \<open>\<open>n === 42161\<close>. The doubles next to 42161 are \<open>42161 - 2^-37\<close> and
      \<open>42161 + 2^-37\<close>, and the significand of 42161 is even, so rounding to nearest
      (ties to even) sends exactly the values within \<open>2^-38\<close> of 42161 to it.\<close>
  "is42161 n = (case n of MV q \<Rightarrow> \<bar>q - 42161\<bar> \<le> 1 / 2 ^ 38 | _ \<Rightarrow> False)"

section \<open>Double-precision arithmetic\<close>

text \<open>
  The doubles of the runtime, as far as line 144 uses them. A finite double is given by
  its value, a rational number; the flag of an infinity is its sign, \<open>True\<close> for the
  negative one. \<open>NaN\<close> does not enter this arithmetic (\<open>toFixed2\<close> below prints it
  before), and the sign of a zero is not kept: \<open>toFixed\<close> prints both zeros alike.
\<close>

datatype double = DFinite rat | DInfinity bool

text \<open>
  \<open>ilog2 a\<close> is the binary exponent of a positive rational: the integer \<open>e\<close> with
  \<open>2^e \<le> a < 2^(e+1)\<close>, found from the bit lengths of numerator and denominator.
\<close>

definition ilog2 :: "rat \<Rightarrow> int" where
  "ilog2 a =
     (case quotient_of a of (p, d) \<Rightarrow>
        (let k = bitlen p - bitlen d in if 2 powi k \<le> a then k else k - 1))"

definition roundHalfEven :: "rat \<Rightarrow> int" where
  "roundHalfEven r =
     (let f = \<lfloor>r\<rfloor>; t = r - of_int f
      in if t < 1 / 2 then f else if 1 / 2 < t then f + 1 else if even f then f else f + 1)"

text \<open>
  Rounding to the nearest double, ties to the even significand. With \<open>e\<close> the exponent
  of the value, and \<open>-1022\<close> for the smaller ones (there the subnormal numbers begin),
  the doubles around it are the multiples of \<open>2^(e-52)\<close>. A result with exponent 1024
  or more is an infinity.
\<close>

definition roundPositive :: "rat \<Rightarrow> double" where
  "roundPositive a =
     (if a = 0 then DFinite 0
      else
        (let e = max (ilog2 a) (- 1022);
             ulp = 2 powi (e - 52);
             x = of_int (roundHalfEven (a / ulp)) * ulp
         in if 1024 \<le> ilog2 x then DInfinity False else DFinite x))"

definition negateDouble :: "double \<Rightarrow> double" where
  "negateDouble d = (case d of DFinite x \<Rightarrow> DFinite (- x) | DInfinity s \<Rightarrow> DInfinity (\<not> s))"

definition roundDouble :: "rat \<Rightarrow> double" where
  "roundDouble q = (if q < 0 then negateDouble (roundPositive (- q)) else roundPositive q)"

text \<open>
  The division of line 144: the quotient of two doubles is the exact quotient, rounded.
\<close>

definition divideBy10000 :: "double \<Rightarrow> double" where
  "divideBy10000 d = (case d of DFinite x \<Rightarrow> roundDouble (x / 10000) | DInfinity s \<Rightarrow> DInfinity s)"

text \<open>
  The decimal digits of a non-negative integer.
\<close>

definition digitChar :: "int \<Rightarrow> char" where
  "digitChar n = ''0123456789'' ! nat n"

function digitsOf :: "int \<Rightarrow> string" where
  "digitsOf n =
     (if n < 10 then [digitChar n]
      else digitsOf (n div 10) @ [digitChar (n mod 10)])"
  by pat_completeness auto
termination
  by (relation "measure nat") auto

declare digitsOf.simps [simp del]

text \<open>
  \<open>Number::toString\<close> for a double \<open>x\<close> of \<open>10^21\<close> or more: with as few digits \<open>k\<close> as
  possible, integers \<open>n\<close> and \<open>s\<close> of \<open>k\<close> digits such that \<open>s * 10^(n-k)\<close> rounds to
  \<open>x\<close>; among several \<open>s\<close> the one nearest to \<open>x\<close>, the even one at a tie. Only the
  two multiples of \<open>10^(n-k)\<close> around \<open>x\<close> can be nearest, and \<open>n\<close> is the number of
  digits of the integer part of \<open>x\<close> or one more. Seventeen digits always suffice. The
  text is the first digit, a dot and the other digits if there are any, then \<open>e+\<close> and
  \<open>n - 1\<close>.
\<close>

definition shortestCandidates :: "rat \<Rightarrow> int \<Rightarrow> int \<Rightarrow> (int \<times> int \<times> int) list" where
  "shortestCandidates x d k =
     concat (map (\<lambda>n.
       (let u = 10 ^ nat (n - k); lo = \<lfloor>x / u\<rfloor>
        in map (\<lambda>s. (n, k, s))
             (filter (\<lambda>s. 10 ^ nat (k - 1) \<le> s \<and> s < 10 ^ nat k
                        \<and> roundDouble (of_int s * u) = DFinite x)
                [lo, lo + 1])))
       [d, d + 1])"

definition shortestDigits :: "rat \<Rightarrow> int \<times> int \<times> int" where
  "shortestDigits x =
     (let d = int (length (digitsOf \<lfloor>x\<rfloor>));
          dist = (\<lambda>(n, k, s). \<bar>of_int s * 10 ^ nat (n - k) - x\<bar>);
          better = (\<lambda>c b. dist c < dist b
                      \<or> (dist c = dist b \<and> even (snd (snd c)) \<and> odd (snd (snd b))))
      in case find (\<lambda>k. shortestCandidates x d k \<noteq> []) [1..17] of
           None \<Rightarrow> (d, 1, 0)
         | Some k \<Rightarrow>
             foldl (\<lambda>b c. if better c b then c else b)
               (hd (shortestCandidates x d k)) (tl (shortestCandidates x d k)))"

definition numberToString :: "rat \<Rightarrow> string" where
  "numberToString x =
     (case shortestDigits x of (n, k, s) \<Rightarrow>
        (let ds = digitsOf s
         in (if k = 1 then ds else take 1 ds @ ''.'' @ drop 1 ds) @ ''e+'' @ digitsOf (n - 1)))"

text \<open>
  \<open>Number.prototype.toFixed\<close> with two fraction digits, on a double that is not \<open>NaN\<close>:
  the sign, then for a magnitude of \<open>10^21\<close> or more the text of \<open>Number::toString\<close>,
  and below it the integer \<open>n\<close> nearest to a hundred times the magnitude (the larger
  one at a tie), its digits padded with zeros to three, and a dot before the last two.
\<close>

definition doubleToFixed2 :: "double \<Rightarrow> string" where
  "doubleToFixed2 d =
     (case d of
        DInfinity s \<Rightarrow> (if s then ''-Infinity'' else ''Infinity'')
      | DFinite x0 \<Rightarrow>
          (let s = (if x0 < 0 then ''-'' else []);
               x = \<bar>x0\<bar>
           in if 10 ^ 21 \<le> x then s @ numberToString x
              else
                (let n = \<lfloor>x * 100 + 1 / 2\<rfloor>;
                     m = digitsOf n;
                     m' = (if length m \<le> 2 then replicate (3 - length m) CHR ''0'' @ m else m)
                 in s @ take (length m' - 2) m' @ ''.'' @ drop (length m' - 2) m')))"

section \<open>The fee percentage\<close>

text \<open>
  \<open>getFeePct\<close> is
  \<^verbatim>\<open>pool.feeTier ? (parseFloat(pool.feeTier) / 10000).toFixed(2) + "%" : ""\<close>.
  Dividing \<open>NaN\<close> or an infinity by 10000 leaves it, and \<open>toFixed\<close> prints those three
  by name. For a finite literal the runtime rounds the value to a double, divides,
  rounds again and prints two decimals: \<open>fixed2_double\<close>, from the mathematical value
  of the literal to the text printed.

  The label, the transformer and the loop do not look into that text. Their model
  takes the printing of a finite value as the parameter \<open>fixed2\<close>, and what is proved
  about them holds for every \<open>fixed2\<close>; the functions of the source are the instances
  at \<open>fixed2_double\<close>, so \<open>getFeePct fixed2_double\<close> is the \<open>getFeePct\<close> of line 144.
\<close>

definition fixed2_double :: "rat \<Rightarrow> string" where
  "fixed2_double q = doubleToFixed2 (divideBy10000 (roundDouble q))"

definition toFixed2 :: "(rat \<Rightarrow> string) \<Rightarrow> numeric \<Rightarrow> string" where
  "toFixed2 fixed2 n =
     (case n of NaN \<Rightarrow> ''NaN'' | PosInfinity \<Rightarrow> ''Infinity''
      | NegInfinity \<Rightarrow> ''-Infinity'' | MV q \<Rightarrow> fixed2 q)"

definition getFeePct :: "(rat \<Rightarrow> string) \<Rightarrow> Pool \<Rightarrow> string" where
  "getFeePct fixed2 pool =
     (if feeTier pool \<noteq> [] then toFixed2 fixed2 (parseFloat (feeTier pool)) @ ''%''
      else [])"

section \<open>The record transformer\<close>

definition tokenInvalid :: "Token \<Rightarrow> bool" where
  "tokenInvalid t =
     (containsHtmlOrMarkdown (token_name t) \<or> containsHtmlOrMarkdown (token_symbol t))"

definition rejectedName :: "Token \<Rightarrow> string" where
  "rejectedName t = token_name t @ '', Symbol: '' @ token_symbol t"

text \<open>
  One turn of the \<open>forEach\<close> over the page: the state is \<open>validPools\<close> and
  \<open>rejectedNames\<close>, and \<open>push\<close> appends. A valid pool is kept together with the two
  tokens read from it, which the \<open>map\<close> reads again from the same pool.
\<close>

definition filterStep ::
  "(Pool \<times> Token \<times> Token) list \<times> string list \<Rightarrow> Pool
   \<Rightarrow> (Pool \<times> Token \<times> Token) list \<times> string list" where
  "filterStep st pool =
     (case st of (validPools, rejectedNames) \<Rightarrow>
        (case token0 pool of
           None \<Rightarrow> st
         | Some t0 \<Rightarrow>
             (case token1 pool of
                None \<Rightarrow> st
              | Some t1 \<Rightarrow>
                  if tokenInvalid t0 \<or> tokenInvalid t1 then
                    (validPools,
                     rejectedNames
                       @ (if tokenInvalid t0 then [rejectedName t0] else [])
                       @ (if tokenInvalid t1 then [rejectedName t1] else []))
                  else (validPools @ [(pool, t0, t1)], rejectedNames))))"

definition filterPools :: "Pool list \<Rightarrow> (Pool \<times> Token \<times> Token) list \<times> string list" where
  "filterPools pools = foldl filterStep ([], []) pools"

definition tickLabel :: "Pool \<Rightarrow> string" where
  \<comment> \<open>\<open>pool.tickSpacing ?? 'N/A'\<close>\<close>
  "tickLabel pool = (case tickSpacing pool of None \<Rightarrow> ''N/A'' | Some t \<Rightarrow> t)"

definition suffixOf :: "(rat \<Rightarrow> string) \<Rightarrow> Pool \<Rightarrow> string" where
  "suffixOf fixed2 pool =
     '' CL Pool ('' @ getFeePct fixed2 pool @ '', tick: '' @ tickLabel pool @ '')''"

definition tagOf :: "(rat \<Rightarrow> string) \<Rightarrow> string \<Rightarrow> Pool \<times> Token \<times> Token \<Rightarrow> ContractTag" where
  "tagOf fixed2 chainId v =
     (case v of (pool, t0, t1) \<Rightarrow>
        \<lparr> contractAddress = ''eip155:'' @ chainId @ '':'' @ pool_id pool,
          publicNameTag = tagName (token_symbol t0) (token_symbol t1) (suffixOf fixed2 pool),
          projectName = ''Ramses Concentrated Liquidity'',
          websiteLink = ''https://ramses.exchange'',
          publicNote =
            ''Ramses CL pool for '' @ token_symbol t0 @ '' ('' @ token_name t0 @ '') / ''
            @ token_symbol t1 @ '' ('' @ token_name t1 @ ''), fee tier: '' @ feeTier pool
            @ '', tick spacing: '' @ tickLabel pool \<rparr>)"

definition transformPoolsToTags ::
  "(rat \<Rightarrow> string) \<Rightarrow> string \<Rightarrow> Pool list \<Rightarrow> ContractTag list" where
  "transformPoolsToTags fixed2 chainId pools =
     map (tagOf fixed2 chainId) (fst (filterPools pools))"

definition rejectedNamesOf :: "Pool list \<Rightarrow> string list" where
  \<comment> \<open>what \<open>transformPoolsToTags\<close> prints on the console for one page, when not empty\<close>
  "rejectedNamesOf pools = snd (filterPools pools)"

section \<open>Decoding a symbol\<close>











section \<open>The endpoint\<close>

definition subgraphId :: string where
  "subgraphId = ''ATQTt3wRTgXy4canCh6t1yeczAz4ZuEkFQL2mrLXEMyQ''"

definition endpoint :: "string option \<Rightarrow> string" where
  \<comment> \<open>\<open>!apiKey\<close> holds for an absent key and for the empty string\<close>
  "endpoint apiKey =
     (case apiKey of
        None \<Rightarrow>
          ''https://gateway-arbitrum.network.thegraph.com/api/[api-key]/subgraphs/id/''
          @ subgraphId
      | Some k \<Rightarrow>
          if k = [] \<or> k = ''dummy'' then
            ''https://gateway-arbitrum.network.thegraph.com/api/[api-key]/subgraphs/id/''
            @ subgraphId
          else
            ''https://gateway-arbitrum.network.thegraph.com/api/'' @ k
            @ ''/subgraphs/id/'' @ subgraphId)"

section \<open>One page\<close>

text \<open>
  What the network answers to one request. \<open>fetch\<close> or \<open>resp.json()\<close> can reject: with
  an error object, given by its text \<open>String(error)\<close>, or with a value that \<open>isError\<close>
  does not accept. Otherwise there is a status (\<open>resp.ok\<close> is a status from 200 to 299)
  and a body with the optional \<open>errors\<close> list and the optional \<open>data.pools\<close>.
\<close>

datatype thrown = Thrown string | ThrownOther

datatype body = BodyFails thrown | Body "string list option" "Pool list option"

datatype reply = FetchFails thrown | Reply nat body

text \<open>
  The decimal digits of a status, as the template literal of the error message prints
  them.
\<close>

fun decimalDigits :: "nat \<Rightarrow> string" where
  "decimalDigits n =
     (if n < 10 then [char_of (48 + n)]
      else decimalDigits (n div 10) @ [char_of (48 + n mod 10)])"

declare decimalDigits.simps [simp del]

text \<open>
  \<open>fetchPools\<close>: the request it sends (the URL and the variable \<open>lastTimestamp\<close>), and
  what it returns or throws on a given reply. An \<open>errors\<close> list that is present is
  truthy also when it is empty.
\<close>

definition fetchRequest :: "string \<Rightarrow> int \<Rightarrow> string \<times> int" where
  "fetchRequest apiKey lastTimestamp = (endpoint (Some apiKey), lastTimestamp)"

definition fetchPools :: "reply \<Rightarrow> thrown + Pool list" where
  "fetchPools r =
     (case r of
        FetchFails t \<Rightarrow> Inl t
      | Reply status b \<Rightarrow>
          if \<not> (200 \<le> status \<and> status \<le> 299)
          then Inl (Thrown (''Error: HTTP error: '' @ decimalDigits status))
          else
            (case b of
               BodyFails t \<Rightarrow> Inl t
             | Body errors pools \<Rightarrow>
                 (case errors of
                    Some _ \<Rightarrow>
                      Inl (Thrown ''Error: GraphQL errors occurred: see logs for details.'')
                  | None \<Rightarrow>
                      (case pools of
                         None \<Rightarrow> Inl (Thrown ''Error: No pools data found.'')
                       | Some ps \<Rightarrow> Inr ps))))"

section \<open>The pagination driver\<close>

datatype error = Error string

definition unsupportedChain :: "string \<Rightarrow> error" where
  "unsupportedChain chainId =
     Error (''Unsupported Chain ID: '' @ chainId @ ''. Only Arbitrum (42161) is supported.'')"

definition missingCredential :: error where
  "missingCredential = Error ''API key is required''"

definition fetchFailure :: "thrown \<Rightarrow> error" where
  \<comment> \<open>the \<open>catch\<close> of the loop\<close>
  "fetchFailure t =
     (case t of
        Thrown text \<Rightarrow> Error (''Failed fetching data: '' @ text)
      | ThrownOther \<Rightarrow> Error ''An unknown error occurred during fetch operation.'')"

text \<open>
  The \<open>filter\<close> of the loop body: its predicate reads and extends \<open>seenAddr\<close>, so the
  set is threaded through the list from left to right.
\<close>

fun filterSeen :: "string set \<Rightarrow> ContractTag list \<Rightarrow> ContractTag list \<times> string set" where
  "filterSeen seenAddr [] = ([], seenAddr)"
| "filterSeen seenAddr (tag # tags) =
     (if contractAddress tag \<in> seenAddr then filterSeen seenAddr tags
      else (case filterSeen (insert (contractAddress tag) seenAddr) tags of
              (kept, seenAddr') \<Rightarrow> (tag # kept, seenAddr')))"

text \<open>
  A run of \<open>returnTags\<close> against the replies the network will give, in order: the
  outcome (\<open>None\<close> when the loop asks for a reply after the last one, so that a source
  that never ends the loop gives \<open>None\<close> on every finite list), the requests sent, and
  the replies not read. The console output and \<open>counter\<close>, which only feeds it, are left
  out.
\<close>

record run =
  outcome :: "(error + ContractTag list) option"
  requests :: "(string \<times> int) list"
  unread :: "reply list"

fun pages ::
  "(rat \<Rightarrow> string) \<Rightarrow> string \<Rightarrow> string \<Rightarrow> int \<Rightarrow> ContractTag list \<Rightarrow> string set
   \<Rightarrow> (string \<times> int) list \<Rightarrow> reply list \<Rightarrow> run" where
  "pages fixed2 chainId apiKey lastTimestamp allTags seenAddr sent [] =
     \<lparr> outcome = None, requests = sent, unread = [] \<rparr>"
| "pages fixed2 chainId apiKey lastTimestamp allTags seenAddr sent (r # rs) =
     (let sent' = sent @ [fetchRequest apiKey lastTimestamp] in
      case fetchPools r of
        Inl t \<Rightarrow> \<lparr> outcome = Some (Inl (fetchFailure t)), requests = sent', unread = rs \<rparr>
      | Inr pools \<Rightarrow>
          (case filterSeen seenAddr (transformPoolsToTags fixed2 chainId pools) of
             (tagsForPools, seenAddr') \<Rightarrow>
               if length pools = 1000 then
                 pages fixed2 chainId apiKey (createdAtTimestamp (last pools))
                   (allTags @ tagsForPools) seenAddr' sent' rs
               else \<lparr> outcome = Some (Inr (allTags @ tagsForPools)),
                      requests = sent', unread = rs \<rparr>))"

definition returnTags :: "(rat \<Rightarrow> string) \<Rightarrow> string \<Rightarrow> string \<Rightarrow> reply list \<Rightarrow> run" where
  "returnTags fixed2 chainId apiKey replies =
     (if \<not> is42161 (toNumber chainId) then
        \<lparr> outcome = Some (Inl (unsupportedChain chainId)), requests = [], unread = replies \<rparr>
      else if apiKey = [] then
        \<lparr> outcome = Some (Inl missingCredential), requests = [], unread = replies \<rparr>
      else pages fixed2 chainId apiKey 0 [] {} [] replies)"

section \<open>Descriptions used in the statements\<close>

text \<open>
  What one pool contributes to \<open>validPools\<close> and to \<open>rejectedNames\<close>: the two branches of
  the \<open>forEach\<close> body, pool by pool.
\<close>

definition validOf :: "Pool \<Rightarrow> (Pool \<times> Token \<times> Token) list" where
  "validOf pool =
     (case token0 pool of
        None \<Rightarrow> []
      | Some t0 \<Rightarrow>
          (case token1 pool of
             None \<Rightarrow> []
           | Some t1 \<Rightarrow> if tokenInvalid t0 \<or> tokenInvalid t1 then [] else [(pool, t0, t1)]))"

definition rejectsOf :: "Pool \<Rightarrow> string list" where
  "rejectsOf pool =
     (case token0 pool of
        None \<Rightarrow> []
      | Some t0 \<Rightarrow>
          (case token1 pool of
             None \<Rightarrow> []
           | Some t1 \<Rightarrow>
               (if tokenInvalid t0 then [rejectedName t0] else [])
               @ (if tokenInvalid t1 then [rejectedName t1] else [])))"

text \<open>
  The specification's markup check, in its words: the text contains a span delimited by
  angle brackets, \<open><...>\<close>, with something between the brackets.
\<close>

definition angleSpan :: "string \<Rightarrow> bool" where
  "angleSpan text =
     (\<exists>u w v. text = u @ ''<'' @ w @ ''>'' @ v \<and> w \<noteq> [] \<and> CHR ''>'' \<notin> set w)"

definition hasMarkup :: "Token \<Rightarrow> bool" where
  "hasMarkup t = (angleSpan (token_name t) \<or> angleSpan (token_symbol t))"

definition accepted :: "Pool \<Rightarrow> bool" where
  \<comment> \<open>both tokens are there and none of the four texts has a span\<close>
  "accepted pool =
     (case token0 pool of
        None \<Rightarrow> False
      | Some t0 \<Rightarrow>
          (case token1 pool of
             None \<Rightarrow> False
           | Some t1 \<Rightarrow> \<not> hasMarkup t0 \<and> \<not> hasMarkup t1))"

text \<open>
  The specification's deduplication, in its words: the first tag with an address is
  kept, later tags with that address are dropped, and the order is left alone.
\<close>

fun firstByAddress :: "ContractTag list \<Rightarrow> ContractTag list" where
  "firstByAddress [] = []"
| "firstByAddress (tag # tags) =
     tag # firstByAddress (filter (\<lambda>u. contractAddress u \<noteq> contractAddress tag) tags)"

definition poolsOf :: "reply \<Rightarrow> Pool list" where
  \<comment> \<open>the page a reply delivers; none when \<open>fetchPools\<close> throws on it\<close>
  "poolsOf r = (case fetchPools r of Inl _ \<Rightarrow> [] | Inr pools \<Rightarrow> pools)"

definition okReply :: "Pool list \<Rightarrow> reply" where
  "okReply pools = Reply 200 (Body None (Some pools))"

text \<open>
  The label as section 4.3 of the specification builds it: the budget left after the
  two ellipsis markers is split with the first half rounded up and the second half
  rounded down.
\<close>

definition claimedLabel :: "string \<Rightarrow> string \<Rightarrow> string \<Rightarrow> string" where
  "claimedLabel symbol0 symbol1 suffixText =
     (let maxSymbolsLen = 50 - int (length suffixText) - 1;
          symbolsText = symbol0 @ ''/'' @ symbol1;
          symbolsText' =
            (if int (length symbolsText) > maxSymbolsLen then
               (let available = maxSymbolsLen - 6;
                    len0 = (available + 1) div 2;
                    len1 = available div 2;
                    s0 = (if int (length symbol0) > len0
                          then js_slice0 symbol0 len0 @ ''...'' else symbol0);
                    s1 = (if int (length symbol1) > len1
                          then js_slice0 symbol1 len1 @ ''...'' else symbol1)
                in s0 @ ''/'' @ s1)
             else symbolsText);
          name = symbolsText' @ suffixText
      in if length name > 50 then js_slice0 name 50 else name)"






definition placeholderUrl :: string where
  "placeholderUrl =
     ''https://gateway-arbitrum.network.thegraph.com/api/[api-key]/subgraphs/id/ATQTt3wRTgXy4canCh6t1yeczAz4ZuEkFQL2mrLXEMyQ''"

text \<open>
  A number with exactly two decimals: the text of \<open>n / 100\<close> for a non-negative
  integer \<open>n\<close>, which is the digits of the integer part, a dot and two digits.
\<close>

definition twoDecimals :: "int \<Rightarrow> string" where
  "twoDecimals n =
     digitsOf (n div 100) @ ''.'' @ [digitChar (n div 10 mod 10), digitChar (n mod 10)]"

text \<open>
  The least positive normal double. A value of at least this magnitude is rounded with
  a relative error of at most \<open>2^-53\<close>, a smaller one with an absolute error of at most
  \<open>2^-1075\<close>.
\<close>

definition minNormal :: rat where
  "minNormal = 2 powi (- 1022)"

section \<open>Example records\<close>

definition exToken :: "string \<Rightarrow> string \<Rightarrow> Token" where
  "exToken nm sy =
     \<lparr> token_id = ''0x01'', token_name = nm, token_symbol = sy, token_decimals = ''18'' \<rparr>"

definition exPool ::
  "string \<Rightarrow> string \<Rightarrow> string option \<Rightarrow> Token option \<Rightarrow> Token option \<Rightarrow> Pool" where
  "exPool i fee tick t0 t1 =
     \<lparr> pool_id = i, feeTier = fee, liquidity = ''0'', sqrtPrice = ''0'', tickSpacing = tick,
       createdAtTimestamp = 1700000000, token0 = t0, token1 = t1 \<rparr>"

definition poolPlain :: Pool where
  "poolPlain = exPool ''0xa1'' ''500'' (Some ''10'')
     (Some (exToken ''Wrapped Ether'' ''WETH'')) (Some (exToken ''USD Coin'' ''USDC''))"

definition poolLong :: Pool where
  "poolLong = exPool ''0xa2'' ''3000'' (Some ''60'')
     (Some (exToken ''Long'' ''EXTREMELYLONGTOKENNAME''))
     (Some (exToken ''Another'' ''ANOTHERLONGNAME''))"

definition poolMarkup :: Pool where
  "poolMarkup = exPool ''0xa3'' ''500'' (Some ''10'')
     (Some (exToken ''Wrapped Ether'' ''WETH'')) (Some (exToken ''Bad <b>Coin</b>'' ''BAD''))"

definition poolNoToken1 :: Pool where
  "poolNoToken1 = exPool ''0xa4'' ''500'' (Some ''10'')
     (Some (exToken ''Wrapped Ether'' ''WETH'')) None"

definition poolNoFee :: Pool where
  "poolNoFee = exPool ''0xa5'' [] (Some ''10'')
     (Some (exToken ''Wrapped Ether'' ''WETH'')) (Some (exToken ''USD Coin'' ''USDC''))"

definition poolTextFee :: Pool where
  "poolTextFee = exPool ''0xa6'' ''abc'' (Some ''10'')
     (Some (exToken ''Wrapped Ether'' ''WETH'')) (Some (exToken ''USD Coin'' ''USDC''))"

definition poolHugeFee :: Pool where
  "poolHugeFee = exPool ''0xa8'' ''1e26'' (Some ''10'')
     (Some (exToken ''Wrapped Ether'' ''WETH'')) (Some (exToken ''USD Coin'' ''USDC''))"

definition poolTieFee :: Pool where
  "poolTieFee = exPool ''0xa9'' ''150'' (Some ''10'')
     (Some (exToken ''Wrapped Ether'' ''WETH'')) (Some (exToken ''USD Coin'' ''USDC''))"

definition poolLongTick :: Pool where
  "poolLongTick = exPool ''0xa7'' ''500'' (Some ''0123456789012345678901234567890123456789'')
     (Some (exToken ''Wrapped Ether'' ''WETH'')) (Some (exToken ''USD Coin'' ''USDC''))"

definition poolAgain :: Pool where
  \<comment> \<open>the address of \<open>poolPlain\<close> with other tokens\<close>
  "poolAgain = exPool ''0xa1'' ''3000'' (Some ''60'')
     (Some (exToken ''Arbitrum'' ''ARB'')) (Some (exToken ''USD Coin'' ''USDC''))"

definition fullPage :: "Pool list" where
  \<comment> \<open>a page of 1000 records, all of them \<open>poolPlain\<close>\<close>
  "fullPage = replicate 1000 poolPlain"

section \<open>The label: lemmas\<close>

lemma clamp50: "length (if length name > 50 then js_slice0 name 50 else name) \<le> 50"
  by (simp add: js_slice0_def)

lemma tagName_length: "length (tagName symbol0 symbol1 suffixText) \<le> 50"
  unfolding tagName_def Let_def by (rule clamp50)

lemma js_slice0_nat: "js_slice0 s (int n) = take n s"
  by (simp add: js_slice0_def min_def)

lemma budget_split:
  assumes "sl \<le> 43"
  shows "(50 - int sl - 1 - 6) div 2 = int ((43 - sl) div 2)"
    and "(50 - int sl - 1 - 6) - int ((43 - sl) div 2) = int ((43 - sl + 1) div 2)"
proof -
  from assms obtain a where a: "sl + a = 43" by (metis le_add_diff_inverse)
  then have sl: "int sl = 43 - int a" and d: "43 - sl = a" by linarith+
  show "(50 - int sl - 1 - 6) div 2 = int ((43 - sl) div 2)"
    unfolding d sl by (simp add: zdiv_int)
  show "(50 - int sl - 1 - 6) - int ((43 - sl) div 2) = int ((43 - sl + 1) div 2)"
    unfolding d sl by (simp add: zdiv_int)
qed

lemma tagName_fits:
  assumes "length symbol0 + 1 + length symbol1 + length suffixText \<le> 49"
  shows "tagName symbol0 symbol1 suffixText = symbol0 @ ''/'' @ symbol1 @ suffixText"
  using assms by (simp add: tagName_def Let_def)

lemma tagName_cut:
  assumes sl: "length suffixText \<le> 43"
    and long: "length symbol0 + 1 + length symbol1 + length suffixText > 49"
  shows "tagName symbol0 symbol1 suffixText =
     (if length symbol0 > (43 - length suffixText) div 2
      then take ((43 - length suffixText) div 2) symbol0 @ ''...'' else symbol0)
     @ ''/''
     @ (if length symbol1 > (43 - length suffixText + 1) div 2
        then take ((43 - length suffixText + 1) div 2) symbol1 @ ''...'' else symbol1)
     @ suffixText"
proof -
  let ?l0 = "(43 - length suffixText) div 2"
  let ?l1 = "(43 - length suffixText + 1) div 2"
  let ?s0 = "if length symbol0 > ?l0 then take ?l0 symbol0 @ ''...'' else symbol0"
  let ?s1 = "if length symbol1 > ?l1 then take ?l1 symbol1 @ ''...'' else symbol1"
  have over: "int (length (symbol0 @ ''/'' @ symbol1)) > 50 - int (length suffixText) - 1"
    using long by simp
  have sum: "?l0 + ?l1 = 43 - length suffixText" by presburger
  have "length ?s0 \<le> ?l0 + 3" "length ?s1 \<le> ?l1 + 3" by simp_all
  then have "length (?s0 @ ''/'' @ ?s1 @ suffixText) \<le> ?l0 + ?l1 + 7 + length suffixText"
    by simp
  also have "\<dots> = 50" using sum sl by simp
  finally have fit: "\<not> length ((?s0 @ ''/'' @ ?s1) @ suffixText) > 50" by simp
  have "tagName symbol0 symbol1 suffixText =
      (if length ((?s0 @ ''/'' @ ?s1) @ suffixText) > 50
       then js_slice0 ((?s0 @ ''/'' @ ?s1) @ suffixText) 50
       else (?s0 @ ''/'' @ ?s1) @ suffixText)"
    unfolding tagName_def Let_def
    by (simp only: over if_True budget_split [OF sl] js_slice0_nat of_nat_less_iff)
  with fit show ?thesis by (simp only: if_False append_assoc)
qed

lemma tagName_ends_with_suffix:
  assumes "length suffixText \<le> 43
     \<or> length symbol0 + 1 + length symbol1 + length suffixText \<le> 49"
  shows "suffix suffixText (tagName symbol0 symbol1 suffixText)"
proof (cases "length symbol0 + 1 + length symbol1 + length suffixText \<le> 49")
  case True
  have "suffix suffixText ((symbol0 @ ''/'' @ symbol1) @ suffixText)"
    by (rule suffix_appendI) simp
  then show ?thesis by (simp add: tagName_fits [OF True])
next
  case False
  with assms have sl: "length suffixText \<le> 43"
    and long: "length symbol0 + 1 + length symbol1 + length suffixText > 49"
    by simp_all
  let ?l0 = "(43 - length suffixText) div 2"
  let ?l1 = "(43 - length suffixText + 1) div 2"
  let ?s0 = "if length symbol0 > ?l0 then take ?l0 symbol0 @ ''...'' else symbol0"
  let ?s1 = "if length symbol1 > ?l1 then take ?l1 symbol1 @ ''...'' else symbol1"
  have "suffix suffixText ((?s0 @ ''/'' @ ?s1) @ suffixText)"
    by (rule suffix_appendI) simp
  then show ?thesis by (simp only: tagName_cut [OF sl long] append_assoc)
qed

section \<open>Reading numbers: lemmas\<close>

lemma digit_not_special:
  assumes "isDecimalDigit c"
  shows "\<not> isWhiteSpace c" "c \<noteq> CHR ''+''" "c \<noteq> CHR ''-''" "c \<noteq> CHR ''I''" "c \<noteq> CHR ''.''"
  using assms by (auto simp: isDecimalDigit_def isWhiteSpace_def)

lemma startsWith_Cons: "startsWith (c # cs) (p # ps) \<longleftrightarrow> c = p \<and> startsWith cs ps"
  by (simp add: startsWith_def)

lemma startsWith_Nil: "startsWith [] (p # ps) = False" "startsWith s [] = True"
  by (simp_all add: startsWith_def)



section \<open>Double-precision arithmetic: lemmas\<close>

lemma ilog2_bounds:
  assumes "0 < a"
  shows "2 powi (ilog2 a) \<le> a \<and> a < 2 powi (ilog2 a + 1)"
proof -
  obtain p d where pd: "quotient_of a = (p, d)" by (cases "quotient_of a")
  then have d: "0 < d" and a: "a = of_int p / of_int d"
    by (simp_all add: quotient_of_denom_pos quotient_of_div)
  from assms a d have p: "0 < p" by (simp add: zero_less_divide_iff)
  define k where "k = bitlen p - bitlen d"
  from bitlen_bounds [OF p] have p1: "(2::int) ^ nat (bitlen p - 1) \<le> p" and p2: "p < 2 ^ nat (bitlen p)"
    by simp_all
  from bitlen_bounds [OF d] have d1: "(2::int) ^ nat (bitlen d - 1) \<le> d" and d2: "d < 2 ^ nat (bitlen d)"
    by simp_all
  have bp: "1 \<le> bitlen p" using p bitlen_eq_zero_iff [of p] bitlen_nonneg [of p] by force
  have bd: "1 \<le> bitlen d" using d bitlen_eq_zero_iff [of d] bitlen_nonneg [of d] by force
  have P1: "(2::rat) powi (bitlen p - 1) \<le> of_int p"
  proof -
    have "(of_int ((2::int) ^ nat (bitlen p - 1)) :: rat) \<le> of_int p" using p1 by (simp only: of_int_le_iff)
    then show ?thesis using bp by (simp add: power_int_def)
  qed
  have P2: "of_int p < (2::rat) powi (bitlen p)"
  proof -
    have "(of_int p :: rat) < of_int ((2::int) ^ nat (bitlen p))" using p2 by (simp only: of_int_less_iff)
    then show ?thesis using bp by (simp add: power_int_def)
  qed
  have D1: "(2::rat) powi (bitlen d - 1) \<le> of_int d"
  proof -
    have "(of_int ((2::int) ^ nat (bitlen d - 1)) :: rat) \<le> of_int d" using d1 by (simp only: of_int_le_iff)
    then show ?thesis using bd by (simp add: power_int_def)
  qed
  have D2: "of_int d < (2::rat) powi (bitlen d)"
  proof -
    have "(of_int d :: rat) < of_int ((2::int) ^ nat (bitlen d))" using d2 by (simp only: of_int_less_iff)
    then show ?thesis using bd by (simp add: power_int_def)
  qed
  have dpos: "(0::rat) < of_int d" using d by simp
  have up: "a < 2 powi (k + 1)"
  proof -
    have "2 powi (k + 1) * (2::rat) powi (bitlen d - 1) = 2 powi (bitlen p)"
      by (simp add: k_def power_int_add [symmetric])
    then have "of_int p < 2 powi (k + 1) * (2::rat) powi (bitlen d - 1)" using P2 by simp
    also have "\<dots> \<le> 2 powi (k + 1) * of_int d"
      using D1 by (simp add: mult_left_mono)
    finally show ?thesis using dpos by (simp add: a pos_divide_less_eq)
  qed
  have low: "2 powi (k - 1) < a"
  proof -
    have "2 powi (k - 1) * (2::rat) powi (bitlen d) = 2 powi (bitlen p - 1)"
      by (simp add: k_def power_int_add [symmetric])
    have "2 powi (k - 1) * of_int d < 2 powi (k - 1) * (2::rat) powi (bitlen d)"
      using D2 by (simp add: mult_strict_left_mono)
    also have "\<dots> = 2 powi (bitlen p - 1)"
      by (simp add: k_def power_int_add [symmetric])
    also have "\<dots> \<le> of_int p" by (rule P1)
    finally show ?thesis using dpos by (simp add: a pos_less_divide_eq)
  qed
  have il: "ilog2 a = (if 2 powi k \<le> a then k else k - 1)"
    by (simp add: ilog2_def pd k_def Let_def)
  show ?thesis
  proof (cases "2 powi k \<le> a")
    case True
    with il up show ?thesis by simp
  next
    case False
    with il low show ?thesis by simp
  qed
qed

lemma roundHalfEven_near: "\<bar>of_int (roundHalfEven r) - r\<bar> \<le> 1 / 2"
proof -
  have "of_int \<lfloor>r\<rfloor> \<le> r" "r < of_int \<lfloor>r\<rfloor> + 1" by linarith+
  then show ?thesis
    by (simp add: roundHalfEven_def Let_def abs_le_iff)
qed

lemma roundHalfEven_int: "roundHalfEven (of_int n) = n"
  by (simp add: roundHalfEven_def Let_def)

lemma roundHalfEven_nonneg:
  assumes "0 \<le> r"
  shows "0 \<le> roundHalfEven r"
proof -
  from assms have "0 \<le> \<lfloor>r\<rfloor>" by simp
  then show ?thesis by (simp add: roundHalfEven_def Let_def)
qed

lemma ilog2_zero: "ilog2 0 = - 2"
  by code_simp

lemma ilog2_less:
  assumes "0 \<le> x" and "x < 2 powi n" and "0 \<le> n"
  shows "ilog2 x < n"
proof (cases "x = 0")
  case True
  with assms show ?thesis by (simp add: ilog2_zero)
next
  case False
  with assms have "0 < x" by simp
  from ilog2_bounds [OF this] assms have less: "(2::rat) powi (ilog2 x) < 2 powi n" by simp
  show ?thesis
  proof (rule ccontr)
    assume "\<not> ilog2 x < n"
    then have "(2::rat) powi n \<le> 2 powi (ilog2 x)" by (intro power_int_increasing) simp_all
    with less show False by simp
  qed
qed

lemma ilog2_ge:
  assumes "2 powi n \<le> x"
  shows "n \<le> ilog2 x"
proof -
  have "(0::rat) < 2 powi n" by simp
  with assms have "0 < x" by linarith
  from ilog2_bounds [OF this] assms have less: "(2::rat) powi n < 2 powi (ilog2 x + 1)" by simp
  show ?thesis
  proof (rule ccontr)
    assume "\<not> n \<le> ilog2 x"
    then have "(2::rat) powi (ilog2 x + 1) \<le> 2 powi n" by (intro power_int_increasing) simp_all
    with less show False by simp
  qed
qed

lemma minNormal_facts: "0 < minNormal" "minNormal \<le> 1 / 10 ^ 300" "minNormal \<le> 1 / 10 ^ 307"
  by (simp_all add: minNormal_def power_int_minus field_simps)

lemma roundPositive_near:
  assumes "0 < a" and "a \<le> 10 ^ 30"
  shows "\<exists>x. roundPositive a = DFinite x \<and> 0 \<le> x \<and> \<bar>x - a\<bar> \<le> max a minNormal / 2 ^ 53"
proof -
  define e where "e = max (ilog2 a) (- 1022)"
  define ulp :: rat where "ulp = 2 powi (e - 52)"
  define x where "x = of_int (roundHalfEven (a / ulp)) * ulp"
  have ulp: "0 < ulp" by (simp add: ulp_def)
  have half: "ulp / 2 = 2 powi e / 2 ^ 53"
    by (simp add: ulp_def power_int_diff)
  have pe: "2 powi e \<le> max a minNormal"
  proof (cases "- 1022 \<le> ilog2 a")
    case True
    then have "e = ilog2 a" by (simp add: e_def)
    with ilog2_bounds [OF assms(1)] show ?thesis by (simp add: le_max_iff_disj)
  next
    case False
    then have "e = - 1022" by (simp add: e_def)
    then show ?thesis by (simp add: minNormal_def)
  qed
  have "\<bar>of_int (roundHalfEven (a / ulp)) - a / ulp\<bar> \<le> 1 / 2" by (rule roundHalfEven_near)
  then have "\<bar>of_int (roundHalfEven (a / ulp)) - a / ulp\<bar> * ulp \<le> 1 / 2 * ulp"
    using ulp by (simp only: mult_le_cancel_right_pos)
  moreover have "\<bar>of_int (roundHalfEven (a / ulp)) - a / ulp\<bar> * ulp = \<bar>x - a\<bar>"
  proof -
    have "\<bar>of_int (roundHalfEven (a / ulp)) - a / ulp\<bar> * ulp
        = \<bar>(of_int (roundHalfEven (a / ulp)) - a / ulp) * ulp\<bar>"
      using ulp by (simp add: abs_mult)
    also have "(of_int (roundHalfEven (a / ulp)) - a / ulp) * ulp = x - a"
      using ulp by (simp add: x_def algebra_simps)
    finally show ?thesis .
  qed
  ultimately have "\<bar>x - a\<bar> \<le> ulp / 2" by simp
  with half have "\<bar>x - a\<bar> \<le> 2 powi e / 2 ^ 53" by simp
  also have "\<dots> \<le> max a minNormal / 2 ^ 53" using pe by (simp add: divide_right_mono)
  finally have near: "\<bar>x - a\<bar> \<le> max a minNormal / 2 ^ 53" .
  have "0 \<le> a / ulp" using assms ulp by simp
  then have "0 \<le> roundHalfEven (a / ulp)" by (rule roundHalfEven_nonneg)
  then have x0: "0 \<le> x" using ulp by (simp add: x_def)
  have "max a minNormal \<le> 10 ^ 30" using assms minNormal_facts by (simp add: max_def)
  then have "max a minNormal / 2 ^ 53 \<le> 10 ^ 30 / 1"
    by (intro frac_le) simp_all
  then have "max a minNormal / 2 ^ 53 \<le> 10 ^ 30" by (simp only: div_by_1)
  with near have "\<bar>x - a\<bar> \<le> 10 ^ 30" by (rule order_trans)
  with assms have "x \<le> 2 * 10 ^ 30" by linarith
  also have "\<dots> < 2 powi 1024" by simp
  finally have "ilog2 x < 1024" using x0 by (intro ilog2_less) simp_all
  then have "roundPositive a = DFinite x"
    using assms by (simp add: roundPositive_def Let_def e_def ulp_def x_def)
  with x0 near show ?thesis by blast
qed

lemma roundPositive_int:
  assumes "0 < v" and "v < 2 ^ 53"
  shows "roundPositive (of_int v) = DFinite (of_int v)"
proof -
  define e where "e = ilog2 (of_int v)"
  have v1: "(1::rat) \<le> of_int v" using assms by simp
  then have "2 powi 0 \<le> (of_int v :: rat)" by simp
  then have e0: "0 \<le> e" unfolding e_def by (rule ilog2_ge)
  have "(of_int v :: rat) < of_int (2 ^ 53)" using assms by (simp only: of_int_less_iff)
  then have "(of_int v :: rat) < 2 powi 53" by simp
  then have e53: "e < 53" unfolding e_def using v1 by (intro ilog2_less) simp_all
  have m: "max e (- 1022) = e" using e0 by simp
  have ulp: "(2::rat) powi (e - 52) = 1 / 2 ^ nat (52 - e)"
    using e53 by (simp add: power_int_def field_simps)
  have "of_int v / (2::rat) powi (e - 52) = of_int (v * 2 ^ nat (52 - e))"
    by (simp add: ulp)
  then have r: "roundHalfEven (of_int v / 2 powi (e - 52)) = v * 2 ^ nat (52 - e)"
    by (simp only: roundHalfEven_int)
  have x: "of_int (v * 2 ^ nat (52 - e)) * (2::rat) powi (e - 52) = of_int v"
    by (simp add: ulp)
  have "ilog2 (of_int v) < 1024" using e53 by (simp add: e_def)
  then show ?thesis
    using assms unfolding roundPositive_def Let_def e_def [symmetric] m r x by simp
qed

lemma roundDouble_zero: "roundDouble 0 = DFinite 0"
  by (simp add: roundDouble_def roundPositive_def)

lemma roundDouble_near:
  assumes "\<bar>q\<bar> \<le> 10 ^ 30"
  shows "\<exists>x. roundDouble q = DFinite x \<and> \<bar>x - q\<bar> \<le> max \<bar>q\<bar> minNormal / 2 ^ 53
           \<and> (0 \<le> q \<longrightarrow> 0 \<le> x) \<and> (q \<le> 0 \<longrightarrow> x \<le> 0)"
proof -
  consider "q = 0" | "0 < q" | "q < 0" by linarith
  then show ?thesis
  proof cases
    case 1
    then show ?thesis using minNormal_facts by (simp add: roundDouble_zero)
  next
    case 2
    with assms have "q \<le> 10 ^ 30" by simp
    from roundPositive_near [OF 2 this] 2 show ?thesis
      by (auto simp add: roundDouble_def)
  next
    case 3
    with assms have "0 < - q" "- q \<le> 10 ^ 30" by simp_all
    from roundPositive_near [OF this] obtain x where
      x: "roundPositive (- q) = DFinite x" "0 \<le> x" "\<bar>x - (- q)\<bar> \<le> max (- q) minNormal / 2 ^ 53"
      by blast
    from 3 have a: "\<bar>q\<bar> = - q" by simp
    have b: "\<bar>- x - q\<bar> = \<bar>x - (- q)\<bar>" by (simp add: abs_minus_commute)
    have "roundDouble q = DFinite (- x)"
      using 3 x(1) by (simp add: roundDouble_def negateDouble_def)
    with x(2,3) 3 a b show ?thesis by simp
  qed
qed

lemma roundDouble_int:
  assumes "0 \<le> v" and "v < 2 ^ 53"
  shows "roundDouble (of_int v) = DFinite (of_int v)"
proof (cases "v = 0")
  case True
  then show ?thesis by (simp add: roundDouble_zero)
next
  case False
  with assms have "0 < v" by simp
  from roundPositive_int [OF this assms(2)] assms(1) show ?thesis
    by (simp add: roundDouble_def)
qed

lemma digitsOf_nonempty: "digitsOf n \<noteq> []"
  by (subst digitsOf.simps) simp

lemma fixedText_twoDecimals:
  assumes "0 \<le> n"
  shows "(let m = digitsOf n;
              m' = (if length m \<le> 2 then replicate (3 - length m) CHR ''0'' @ m else m)
          in take (length m' - 2) m' @ ''.'' @ drop (length m' - 2) m') = twoDecimals n"
proof -
  consider "n < 10" | "10 \<le> n" "n < 100" | "100 \<le> n" by linarith
  then show ?thesis
  proof cases
    case 1
    then have "digitsOf n = [digitChar n]" by (subst digitsOf.simps) simp
    moreover have "digitsOf 0 = ''0''" by (subst digitsOf.simps) (simp add: digitChar_def)
    moreover have "replicate (3 - Suc 0) CHR ''0'' = ''00''" by (simp add: numeral_3_eq_3)
    moreover have "digitChar 0 = CHR ''0''" by (simp add: digitChar_def)
    ultimately show ?thesis using 1 assms by (simp add: twoDecimals_def Let_def)
  next
    case 2
    then have "n div 10 < 10" by simp
    then have "digitsOf (n div 10) = [digitChar (n div 10)]" by (subst digitsOf.simps) simp
    with 2 have "digitsOf n = [digitChar (n div 10), digitChar (n mod 10)]"
      by (subst digitsOf.simps) simp
    moreover have "digitsOf 0 = ''0''" by (subst digitsOf.simps) (simp add: digitChar_def)
    moreover have "n div 10 mod 10 = n div 10" using 2 by simp
    ultimately show ?thesis using 2 by (simp add: twoDecimals_def Let_def)
  next
    case 3
    then have "10 \<le> n div 10" by simp
    then have "digitsOf (n div 10) = digitsOf (n div 10 div 10) @ [digitChar (n div 10 mod 10)]"
      by (subst digitsOf.simps) simp
    moreover have "n div 10 div 10 = n div 100" by (simp add: div_mult2_eq [symmetric])
    ultimately have "digitsOf n
        = digitsOf (n div 100) @ [digitChar (n div 10 mod 10), digitChar (n mod 10)]"
      using 3 by (subst digitsOf.simps) simp
    moreover have "digitsOf (n div 100) \<noteq> []" by (rule digitsOf_nonempty)
    ultimately show ?thesis
      by (cases "digitsOf (n div 100)") (simp_all add: twoDecimals_def Let_def)
  qed
qed

lemma doubleToFixed2_nonneg:
  assumes "0 \<le> y" and "y < 10 ^ 21"
  shows "doubleToFixed2 (DFinite y) = twoDecimals \<lfloor>y * 100 + 1 / 2\<rfloor>"
proof -
  have "0 \<le> \<lfloor>y * 100 + 1 / 2\<rfloor>" using assms by simp
  from fixedText_twoDecimals [OF this] assms show ?thesis
    by (simp add: doubleToFixed2_def Let_def)
qed



lemma max_minNormal_normal:
  assumes "1 / 10 ^ 5 \<le> a"
  shows "max a minNormal = a"
proof -
  have "minNormal \<le> 1 / 10 ^ 300" by (rule minNormal_facts)
  also have "\<dots> \<le> 1 / 10 ^ 5" by simp
  finally show ?thesis using assms by (simp add: max_def)
qed



lemma fixed2_double_int:
  assumes "0 \<le> v" and "v < 2 ^ 53"
  shows "(v mod 100 \<noteq> 50 \<longrightarrow> fixed2_double (of_int v) = twoDecimals ((v + 50) div 100))
       \<and> (v mod 100 = 50 \<longrightarrow>
            fixed2_double (of_int v) = twoDecimals (v div 100)
          \<or> fixed2_double (of_int v) = twoDecimals (v div 100 + 1))"
proof -
  define k where "k = v div 100"
  define r where "r = v mod 100"
  have v: "v = 100 * k + r" and r: "0 \<le> r" "r < 100" by (simp_all add: k_def r_def)
  have k0: "0 \<le> k" using assms by (simp add: k_def pos_imp_zdiv_nonneg_iff)
  have vq: "(of_int v :: rat) = 100 * of_int k + of_int r" by (simp add: v)
  have x: "roundDouble (of_int v) = DFinite (of_int v)"
    using assms by (rule roundDouble_int)
  have "(of_int v :: rat) < of_int (2 ^ 53)" using assms by (simp only: of_int_less_iff)
  then have v53: "(of_int v :: rat) < 2 ^ 53" by simp
  have v0: "(0::rat) \<le> of_int v" using assms by simp
  then have "\<bar>of_int v / 10000 :: rat\<bar> \<le> 10 ^ 30" using v53 by simp
  from roundDouble_near [OF this] obtain y where
    y: "roundDouble (of_int v / 10000) = DFinite y"
       "\<bar>y - of_int v / 10000\<bar> \<le> max \<bar>of_int v / 10000\<bar> minNormal / 2 ^ 53"
       "0 \<le> (of_int v / 10000 :: rat) \<longrightarrow> 0 \<le> y" "(of_int v / 10000 :: rat) \<le> 0 \<longrightarrow> y \<le> 0"
    by blast
  have y0: "0 \<le> y" using y(3) v0 by simp
  have near: "\<bar>y * 100 - of_int v / 100\<bar> < 1 / 100"
  proof (cases "v = 0")
    case True
    with y(4) y0 have "y = 0" by simp
    with True show ?thesis by simp
  next
    case False
    with assms have "1 \<le> v" by simp
    then have "(1::rat) \<le> of_int v" by simp
    then have "1 / 10 ^ 5 \<le> \<bar>of_int v / 10000 :: rat\<bar>" by simp
    from y(2) have "\<bar>y - of_int v / 10000\<bar> \<le> \<bar>of_int v / 10000\<bar> / 2 ^ 53"
      by (simp only: max_minNormal_normal [OF \<open>1 / 10 ^ 5 \<le> \<bar>of_int v / 10000 :: rat\<bar>\<close>])
    then have "\<bar>y - of_int v / 10000\<bar> \<le> of_int v / 10000 / 2 ^ 53" using v0 by simp
    then have "y - of_int v / 10000 \<le> of_int v / 10000 / 2 ^ 53"
      and "- (y - of_int v / 10000) \<le> of_int v / 10000 / 2 ^ 53"
      by (simp_all only: abs_le_iff)
    with v53 have "y * 100 - of_int v / 100 < 1 / 100" and "- (y * 100 - of_int v / 100) < 1 / 100"
      by simp_all
    then show ?thesis by (simp only: abs_less_iff)
  qed
  then have lo: "of_int v / 100 - 1 / 100 < y * 100" and hi: "y * 100 < of_int v / 100 + 1 / 100"
    by (simp_all only: abs_less_iff) simp_all
  have "y * 100 < 2 ^ 53" using hi v53 by simp
  then have ylt: "y < 10 ^ 21" by simp
  have f: "fixed2_double (of_int v) = twoDecimals \<lfloor>y * 100 + 1 / 2\<rfloor>"
    using doubleToFixed2_nonneg [OF y0 ylt]
    by (simp add: fixed2_double_def x divideBy10000_def y(1))
  have below: "\<lfloor>y * 100 + 1 / 2\<rfloor> = k" if "r < 50"
  proof -
    from that have "(of_int r :: rat) \<le> 49" and "(0::rat) \<le> of_int r" using r by simp_all
    with lo hi show ?thesis unfolding vq by (intro floor_unique) (simp_all add: add_divide_distrib)
  qed
  have above: "\<lfloor>y * 100 + 1 / 2\<rfloor> = k + 1" if "50 < r"
  proof -
    from that have "(51::rat) \<le> of_int r" and "(of_int r::rat) \<le> 99" using r by simp_all
    with lo hi show ?thesis unfolding vq by (intro floor_unique) (simp_all add: add_divide_distrib)
  qed
  have tie: "\<lfloor>y * 100 + 1 / 2\<rfloor> = k \<or> \<lfloor>y * 100 + 1 / 2\<rfloor> = k + 1" if "r = 50"
  proof (cases "y * 100 + 1 / 2 < of_int k + 1")
    case True
    with lo that have "\<lfloor>y * 100 + 1 / 2\<rfloor> = k"
      unfolding vq by (intro floor_unique) (simp_all add: add_divide_distrib)
    then show ?thesis by simp
  next
    case False
    with hi that have "\<lfloor>y * 100 + 1 / 2\<rfloor> = k + 1"
      unfolding vq by (intro floor_unique) (simp_all add: add_divide_distrib)
    then show ?thesis by simp
  qed
  have d1: "(v + 50) div 100 = k" if "r < 50"
    using that r by (simp add: v)
  have d2: "(v + 50) div 100 = k + 1" if "50 < r"
  proof -
    have "v + 50 = 100 * (k + 1) + (r - 50)" by (simp add: v)
    then show ?thesis using that r by (simp add: div_pos_pos_trivial)
  qed
  show ?thesis
  proof (intro conjI impI)
    assume "v mod 100 \<noteq> 50"
    then consider "r < 50" | "50 < r" by (fold r_def) linarith
    then show "fixed2_double (of_int v) = twoDecimals ((v + 50) div 100)"
      by cases (simp_all add: f below above d1 d2)
  next
    assume "v mod 100 = 50"
    then have "r = 50" by (simp add: r_def)
    from tie [OF this] show "fixed2_double (of_int v) = twoDecimals (v div 100)
          \<or> fixed2_double (of_int v) = twoDecimals (v div 100 + 1)"
      by (auto simp add: f k_def)
  qed
qed


lemma roundHalfEven_cases:
  assumes "\<lfloor>r\<rfloor> = f" and "r - of_int f = t"
  shows "roundHalfEven r =
    (if t < 1 / 2 then f else if 1 / 2 < t then f + 1 else if even f then f else f + 1)"
  using assms by (simp add: roundHalfEven_def Let_def)

lemma roundHalfEven_even:
  assumes "\<bar>r - of_int n\<bar> \<le> 1 / 2" and "even n"
  shows "roundHalfEven r = n"
proof -
  have b: "of_int n - 1 / 2 \<le> r" "r \<le> of_int n + 1 / 2" using assms(1) by linarith+
  show ?thesis
  proof (cases "r < of_int n")
    case True
    with b have f: "\<lfloor>r\<rfloor> = n - 1" by (intro floor_unique) simp_all
    have t: "r - of_int (n - 1) = r - of_int n + 1" by simp
    from b have "\<not> r - of_int n + 1 < 1 / 2" by simp
    with assms(2) show ?thesis by (simp add: roundHalfEven_cases [OF f t])
  next
    case False
    with b have f: "\<lfloor>r\<rfloor> = n" by (intro floor_unique) simp_all
    have t: "r - of_int n = r - of_int n" by simp
    from b have "\<not> 1 / 2 < r - of_int n" by simp
    with assms(2) show ?thesis by (simp add: roundHalfEven_cases [OF f t])
  qed
qed

lemma roundPositive_sign:
  assumes "0 < a"
  shows "(\<exists>x. roundPositive a = DFinite x \<and> 0 \<le> x) \<or> roundPositive a = DInfinity False"
proof -
  have "0 \<le> a / 2 powi (max (ilog2 a) (- 1022) - 52)" using assms by simp
  then have "0 \<le> roundHalfEven (a / 2 powi (max (ilog2 a) (- 1022) - 52))"
    by (rule roundHalfEven_nonneg)
  then show ?thesis using assms by (simp add: roundPositive_def Let_def)
qed

lemma ilog2_15:
  assumes "32768 \<le> q" and "q < 65536"
  shows "ilog2 q = 15"
proof -
  from assms have "2 powi 15 \<le> q" "q < 2 powi 16" by simp_all
  then have "15 \<le> ilog2 q" "ilog2 q < 16" using assms by (auto intro: ilog2_ge ilog2_less)
  then show ?thesis by simp
qed

lemma ulp_15: "(2::rat) powi (max 15 (- 1022) - 52) = 1 / 2 ^ 37"
  by (simp add: power_int_minus field_simps)

lemma roundPositive_42161:
  assumes "0 < q"
  shows "roundPositive q = DFinite 42161 \<longleftrightarrow> \<bar>q - 42161\<bar> \<le> 1 / 2 ^ 38"
proof
  assume near: "\<bar>q - 42161\<bar> \<le> 1 / 2 ^ 38"
  have "(1::rat) / 2 ^ 38 \<le> 1" by simp
  with near have "32768 \<le> q" "q < 65536" by linarith+
  then have e: "ilog2 q = 15" by (rule ilog2_15)
  from near have "q - 42161 \<le> 1 / 2 ^ 38" "- (q - 42161) \<le> 1 / 2 ^ 38"
    by (simp_all only: abs_le_iff)
  then have "q * 137438953472 - of_int 5794563717332992 \<le> 1 / 2"
    "- (q * 137438953472 - of_int 5794563717332992) \<le> 1 / 2"
    by simp_all
  then have "\<bar>q * 137438953472 - of_int 5794563717332992\<bar> \<le> 1 / 2"
    by (simp only: abs_le_iff)
  then have r: "roundHalfEven (q * 137438953472) = 5794563717332992"
    by (rule roundHalfEven_even) simp
  have "ilog2 42161 = 15" by (rule ilog2_15) simp_all
  then show "roundPositive q = DFinite 42161"
    using assms by (simp add: roundPositive_def Let_def e ulp_15 r)
next
  assume r: "roundPositive q = DFinite 42161"
  show "\<bar>q - 42161\<bar> \<le> 1 / 2 ^ 38"
  proof (cases "q \<le> 10 ^ 30")
    case True
    from roundPositive_near [OF assms True] r
    have n: "\<bar>42161 - q\<bar> \<le> max q minNormal / 2 ^ 53" by auto
    have "minNormal \<le> 1 / 10 ^ 300" by (rule minNormal_facts)
    then have m: "minNormal \<le> 1" by simp
    have big: "minNormal \<le> q"
    proof (rule ccontr)
      assume c: "\<not> minNormal \<le> q"
      then have "max q minNormal = minNormal" by (simp add: max_def)
      with n have "\<bar>42161 - q\<bar> \<le> minNormal / 2 ^ 53" by simp
      moreover have "minNormal / 2 ^ 53 \<le> 1 / 1" using m minNormal_facts(1) by (intro frac_le) simp_all
      ultimately have "\<bar>42161 - q\<bar> \<le> 1" by simp
      with c m show False by linarith
    qed
    then have "max q minNormal = q" by (simp add: max_def)
    with n have n': "\<bar>42161 - q\<bar> \<le> q / 2 ^ 53" by simp
    then have "42161 - q \<le> q / 2 ^ 53" "- (42161 - q) \<le> q / 2 ^ 53" by (simp_all only: abs_le_iff)
    then have "32768 \<le> q" "q < 65536" by simp_all
    then have e: "ilog2 q = 15" by (rule ilog2_15)
    from r have "(of_int (roundHalfEven (q * 137438953472)) :: rat) = 5794563717332992"
      using assms by (simp add: roundPositive_def Let_def e ulp_15 split: if_splits)
    with roundHalfEven_near [of "q * 137438953472"]
    have "\<bar>5794563717332992 - q * 137438953472\<bar> \<le> 1 / 2" by simp
    then have "5794563717332992 - q * 137438953472 \<le> 1 / 2"
      "- (5794563717332992 - q * 137438953472) \<le> 1 / 2"
      by (simp_all only: abs_le_iff)
    then have "q - 42161 \<le> 1 / 2 ^ 38" "- (q - 42161) \<le> 1 / 2 ^ 38" by simp_all
    then show ?thesis by (simp only: abs_le_iff)
  next
    case False
    then have big: "10 ^ 30 < q" by simp
    define e where "e = max (ilog2 q) (- 1022)"
    have "2 powi 99 \<le> q" using big by simp
    then have "99 \<le> ilog2 q" by (rule ilog2_ge)
    then have e99: "99 \<le> e" by (simp add: e_def)
    define R where "R = roundHalfEven (q / 2 powi (e - 52))"
    from r have x: "of_int R * 2 powi (e - 52) = (42161::rat)"
      using assms by (simp add: roundPositive_def Let_def e_def R_def split: if_splits)
    have "2 powi (e - 52) = (of_int (2 ^ nat (e - 52)) :: rat)"
      using e99 by (simp add: power_int_def)
    with x have "(of_int (R * 2 ^ nat (e - 52)) :: rat) = of_int 42161" by simp
    then have eq: "R * 2 ^ nat (e - 52) = 42161" by (simp only: of_int_eq_iff)
    have "nat (e - 52) = Suc (nat (e - 53))" using e99 by simp
    then have "even (R * 2 ^ nat (e - 52))" by simp
    with eq show ?thesis by simp
  qed
qed

lemma is42161_roundDouble: "is42161 (MV q) \<longleftrightarrow> roundDouble q = DFinite 42161"
proof (cases "0 < q")
  case True
  then show ?thesis by (simp add: is42161_def roundDouble_def roundPositive_42161)
next
  case False
  have "(1::rat) / 2 ^ 38 \<le> 1" by simp
  with False have n: "\<not> \<bar>q - 42161\<bar> \<le> 1 / 2 ^ 38" by linarith
  have "roundDouble q \<noteq> DFinite 42161"
  proof (cases "q = 0")
    case True
    then show ?thesis by (simp add: roundDouble_zero)
  next
    case q: False
    with False have neg: "q < 0" by simp
    then have "0 < - q" by simp
    from roundPositive_sign [OF this] show ?thesis
      using neg by (auto simp add: roundDouble_def negateDouble_def)
  qed
  with n show ?thesis by (simp add: is42161_def)
qed



section \<open>The record transformer: lemmas\<close>

lemma filterStep_eq: "filterStep (v, r) pool = (v @ validOf pool, r @ rejectsOf pool)"
  by (simp add: filterStep_def validOf_def rejectsOf_def split: option.splits)

lemma foldl_filterStep:
  "foldl filterStep (v, r) pools =
     (v @ concat (map validOf pools), r @ concat (map rejectsOf pools))"
  by (induction pools arbitrary: v r) (simp_all add: filterStep_eq)

lemma filterPools_eq:
  "filterPools pools = (concat (map validOf pools), concat (map rejectsOf pools))"
  by (simp add: filterPools_def foldl_filterStep)

text \<open>The regular expression finds exactly the spans of the specification.\<close>

lemma startsWith_gt: "startsWith s ''>'' \<longleftrightarrow> (\<exists>v. s = CHR ''>'' # v)"
  by (cases s) (simp_all add: startsWith_def)

lemma tag_here_Cons:
  "tag_here (c # cs) \<longleftrightarrow>
     c = CHR ''<'' \<and> takeWhile (\<lambda>x. x \<noteq> CHR ''>'') cs \<noteq> [] \<and>
     (\<exists>v. dropWhile (\<lambda>x. x \<noteq> CHR ''>'') cs = CHR ''>'' # v)"
  by (simp only: tag_here_def list.case Let_def startsWith_gt dropWhile_eq_drop)

lemma tag_here_iff:
  "tag_here s \<longleftrightarrow> (\<exists>w v. s = ''<'' @ w @ ''>'' @ v \<and> w \<noteq> [] \<and> CHR ''>'' \<notin> set w)"
proof
  assume h: "tag_here s"
  then obtain c cs where tx: "s = c # cs" by (cases s) (auto simp: tag_here_def)
  let ?P = "\<lambda>x. x \<noteq> CHR ''>''"
  from h tx have "tag_here (c # cs)" by simp
  then have c: "c = CHR ''<''" and ne: "takeWhile ?P cs \<noteq> []"
    and "\<exists>v. dropWhile ?P cs = CHR ''>'' # v"
    unfolding tag_here_Cons by blast+
  then obtain v where v: "dropWhile ?P cs = CHR ''>'' # v" by blast
  have "takeWhile ?P cs @ dropWhile ?P cs = cs" by (rule takeWhile_dropWhile_id)
  with v have cs: "cs = takeWhile ?P cs @ CHR ''>'' # v" by simp
  have "CHR ''>'' \<notin> set (takeWhile ?P cs)"
    by (auto dest: set_takeWhileD)
  moreover have "s = ''<'' @ takeWhile ?P cs @ ''>'' @ v"
    using tx c cs by simp
  ultimately show "\<exists>w v. s = ''<'' @ w @ ''>'' @ v \<and> w \<noteq> [] \<and> CHR ''>'' \<notin> set w"
    using ne by blast
next
  assume "\<exists>w v. s = ''<'' @ w @ ''>'' @ v \<and> w \<noteq> [] \<and> CHR ''>'' \<notin> set w"
  then obtain w v where tx: "s = CHR ''<'' # (w @ CHR ''>'' # v)" and ne: "w \<noteq> []"
    and w: "CHR ''>'' \<notin> set w" by auto
  let ?P = "\<lambda>x. x \<noteq> CHR ''>''"
  have all: "\<forall>x \<in> set w. ?P x" using w by auto
  then have t: "takeWhile ?P (w @ CHR ''>'' # v) = w"
    by (simp add: takeWhile_tail)
  from all have d: "dropWhile ?P (w @ CHR ''>'' # v) = CHR ''>'' # v"
    by simp
  show "tag_here s"
    unfolding tx tag_here_Cons t d using ne by simp
qed

lemma contains_iff_tag_here:
  "containsHtmlOrMarkdown s \<longleftrightarrow> (\<exists>u r. s = u @ r \<and> tag_here r)"
proof (induction s)
  case Nil
  show ?case by (simp add: tag_here_def)
next
  case (Cons c cs)
  show ?case
  proof
    assume "containsHtmlOrMarkdown (c # cs)"
    then consider "tag_here (c # cs)" | "containsHtmlOrMarkdown cs" by auto
    then show "\<exists>u r. c # cs = u @ r \<and> tag_here r"
    proof cases
      case 1
      then show ?thesis by (metis append_Nil)
    next
      case 2
      with Cons.IH obtain u r where "cs = u @ r" "tag_here r" by blast
      then show ?thesis by (metis append_Cons)
    qed
  next
    assume "\<exists>u r. c # cs = u @ r \<and> tag_here r"
    then obtain u r where ur: "c # cs = u @ r" and r: "tag_here r" by blast
    show "containsHtmlOrMarkdown (c # cs)"
    proof (cases u)
      case Nil
      with ur r have "tag_here (c # cs)" by simp
      then show ?thesis by simp
    next
      case (Cons a u')
      with ur have "cs = u' @ r" by simp
      with r Cons.IH show ?thesis by auto
    qed
  qed
qed

lemma containsHtmlOrMarkdown_iff: "containsHtmlOrMarkdown s \<longleftrightarrow> angleSpan s"
proof
  assume "containsHtmlOrMarkdown s"
  then obtain u w v where "s = u @ (''<'' @ w @ ''>'' @ v)" "w \<noteq> []" "CHR ''>'' \<notin> set w"
    unfolding contains_iff_tag_here tag_here_iff by blast
  then show "angleSpan s" unfolding angleSpan_def by blast
next
  assume "angleSpan s"
  then obtain u w v where "s = u @ (''<'' @ w @ ''>'' @ v)" "w \<noteq> []" "CHR ''>'' \<notin> set w"
    unfolding angleSpan_def by blast
  then show "containsHtmlOrMarkdown s"
    unfolding contains_iff_tag_here tag_here_iff by blast
qed

lemma tokenInvalid_iff: "tokenInvalid t \<longleftrightarrow> hasMarkup t"
  by (simp add: tokenInvalid_def hasMarkup_def containsHtmlOrMarkdown_iff)

lemma validOf_accepted:
  "concat (map validOf pools) =
     map (\<lambda>p. (p, the (token0 p), the (token1 p))) (filter accepted pools)"
  by (induction pools)
     (auto simp: validOf_def accepted_def tokenInvalid_iff split: option.splits)

lemma rejectsOf_silent: "token0 p = None \<or> token1 p = None \<Longrightarrow> rejectsOf p = []"
  by (auto simp: rejectsOf_def split: option.splits)

lemma rejectsOf_markup:
  "token0 p \<noteq> None \<Longrightarrow> token1 p \<noteq> None \<Longrightarrow> \<not> accepted p \<Longrightarrow> rejectsOf p \<noteq> []"
  by (auto simp: rejectsOf_def accepted_def tokenInvalid_iff split: option.splits)

section \<open>Decoding a symbol: lemmas\<close>











lemma trim_id:
  assumes "s \<noteq> []" and "\<not> isWhiteSpace (hd s)" and "\<not> isWhiteSpace (last s)"
  shows "trim s = s"
proof -
  have a: "dropWhile isWhiteSpace s = s"
    using assms(1,2) by (cases s) simp_all
  have "rev s \<noteq> []" "\<not> isWhiteSpace (hd (rev s))"
    using assms(1,3) by (simp_all add: hd_rev)
  then have "dropWhile isWhiteSpace (rev s) = rev s"
    by (cases "rev s") simp_all
  with a show ?thesis by (simp add: trim_def)
qed




section \<open>Deduplication and the loop: lemmas\<close>

lemma set_firstByAddress: "set (firstByAddress tags) \<subseteq> set tags"
  by (induction tags rule: firstByAddress.induct) auto

lemma distinct_firstByAddress: "distinct (map contractAddress (firstByAddress tags))"
proof (induction tags rule: firstByAddress.induct)
  case 1
  show ?case by simp
next
  case (2 tag tags)
  have "contractAddress tag \<notin> contractAddress `
          set (firstByAddress (filter (\<lambda>u. contractAddress u \<noteq> contractAddress tag) tags))"
    using set_firstByAddress [of "filter (\<lambda>u. contractAddress u \<noteq> contractAddress tag) tags"]
    by auto
  with 2 show ?case by simp
qed

lemma firstByAddress_append:
  "firstByAddress (xs @ ys) =
     firstByAddress xs
     @ firstByAddress (filter (\<lambda>t. contractAddress t \<notin> contractAddress ` set xs) ys)"
proof (induction xs arbitrary: ys rule: firstByAddress.induct)
  case 1
  show ?case by simp
next
  case (2 tag tags)
  let ?a = "contractAddress tag"
  let ?ne = "\<lambda>u. contractAddress u \<noteq> ?a"
  have f: "filter (\<lambda>t. contractAddress t \<notin> contractAddress ` set (filter ?ne tags)) (filter ?ne ys)
         = filter (\<lambda>t. contractAddress t \<notin> contractAddress ` set (tag # tags)) ys"
    unfolding filter_filter by (rule filter_cong) auto
  have "firstByAddress ((tag # tags) @ ys) = tag # firstByAddress (filter ?ne tags @ filter ?ne ys)"
    by simp
  also have "\<dots> = tag # firstByAddress (filter ?ne tags)
      @ firstByAddress (filter (\<lambda>t. contractAddress t \<notin> contractAddress ` set (filter ?ne tags))
          (filter ?ne ys))"
    by (simp only: "2.IH" append_Cons)
  finally show ?case by (simp only: f firstByAddress.simps append_Cons)
qed

lemma filterSeen_eq:
  "filterSeen S tags =
     (firstByAddress (filter (\<lambda>t. contractAddress t \<notin> S) tags), S \<union> contractAddress ` set tags)"
proof (induction tags arbitrary: S)
  case Nil
  show ?case by simp
next
  case (Cons t ts)
  show ?case
  proof (cases "contractAddress t \<in> S")
    case True
    then show ?thesis by (auto simp: Cons.IH)
  next
    case False
    have "filter (\<lambda>u. contractAddress u \<noteq> contractAddress t) (filter (\<lambda>u. contractAddress u \<notin> S) ts)
        = filter (\<lambda>u. contractAddress u \<notin> insert (contractAddress t) S) ts"
      unfolding filter_filter by (rule filter_cong) auto
    with False show ?thesis by (simp add: Cons.IH)
  qed
qed

lemma poolsOf_Inr: "fetchPools r = Inr pools \<Longrightarrow> poolsOf r = pools"
  by (simp add: poolsOf_def)

lemma pages_shape:
  assumes "seen = contractAddress ` set A" and "allTags = firstByAddress A"
  shows "\<exists>rd. replies = rd @ unread (pages f c k ts allTags seen sent replies)
     \<and> length (requests (pages f c k ts allTags seen sent replies)) = length sent + length rd
     \<and> (\<forall>tags. outcome (pages f c k ts allTags seen sent replies) = Some (Inr tags) \<longrightarrow>
           tags = firstByAddress
             (A @ concat (map (\<lambda>r. transformPoolsToTags f c (poolsOf r)) rd)))"
  using assms
proof (induction replies arbitrary: ts allTags seen sent A)
  case Nil
  show ?case by simp
next
  case (Cons r rs)
  show ?case
  proof (cases "fetchPools r")
    case (Inl t)
    then have "pages f c k ts allTags seen sent (r # rs) =
        \<lparr> outcome = Some (Inl (fetchFailure t)),
          requests = sent @ [fetchRequest k ts], unread = rs \<rparr>"
      by simp
    then show ?thesis by (intro exI [of _ "[r]"]) simp
  next
    case (Inr pools)
    let ?T = "transformPoolsToTags f c pools"
    let ?new = "firstByAddress (filter (\<lambda>t. contractAddress t \<notin> seen) ?T)"
    have all: "allTags @ ?new = firstByAddress (A @ ?T)"
      by (simp add: firstByAddress_append Cons.prems)
    have seen': "seen \<union> contractAddress ` set ?T = contractAddress ` set (A @ ?T)"
      by (auto simp: Cons.prems)
    show ?thesis
    proof (cases "length pools = 1000")
      case True
      let ?run = "pages f c k (createdAtTimestamp (last pools)) (allTags @ ?new)
          (seen \<union> contractAddress ` set ?T) (sent @ [fetchRequest k ts]) rs"
      have step: "pages f c k ts allTags seen sent (r # rs) = ?run"
        using Inr True by (simp add: filterSeen_eq)
      from Cons.IH [OF seen' all, of "createdAtTimestamp (last pools)" "sent @ [fetchRequest k ts]"]
      obtain rd where rd: "rs = rd @ unread ?run"
        and len: "length (requests ?run) = length (sent @ [fetchRequest k ts]) + length rd"
        and tags: "\<forall>tags. outcome ?run = Some (Inr tags) \<longrightarrow>
           tags = firstByAddress
             ((A @ ?T) @ concat (map (\<lambda>r. transformPoolsToTags f c (poolsOf r)) rd))"
        by blast
      show ?thesis
        unfolding step
        using rd len tags by (intro exI [of _ "r # rd"]) (simp add: poolsOf_Inr [OF Inr])
    next
      case False
      have "pages f c k ts allTags seen sent (r # rs) =
          \<lparr> outcome = Some (Inr (allTags @ ?new)),
            requests = sent @ [fetchRequest k ts], unread = rs \<rparr>"
        using Inr False by (simp add: filterSeen_eq)
      then show ?thesis
        by (intro exI [of _ "[r]"]) (simp add: all poolsOf_Inr [OF Inr])
    qed
  qed
qed

lemma subseq_firstByAddress: "subseq (firstByAddress tags) tags"
proof (induction tags rule: firstByAddress.induct)
  case 1
  show ?case by simp
next
  case (2 tag tags)
  let ?rest = "filter (\<lambda>u. contractAddress u \<noteq> contractAddress tag) tags"
  have "subseq (firstByAddress ?rest) ?rest" by (rule "2.IH")
  moreover have "subseq ?rest tags" by simp
  ultimately have "subseq (firstByAddress ?rest) tags" by (rule subseq_order.trans)
  then show ?case by simp
qed

lemma firstByAddress_keeps_first:
  assumes "tags = pre @ t # post" and "contractAddress t \<notin> contractAddress ` set pre"
  shows "t \<in> set (firstByAddress tags)"
  using assms by (simp add: firstByAddress_append)

lemma returnTags_Inr:
  assumes "outcome (returnTags f c k replies) = Some (Inr tags)"
  shows "returnTags f c k replies = pages f c k 0 [] {} [] replies"
  using assms by (simp add: returnTags_def split: if_splits)

lemma returnTags_shape:
  assumes "outcome (returnTags f c k replies) = Some (Inr tags)"
  shows "tags = firstByAddress (concat (map (\<lambda>r. transformPoolsToTags f c (poolsOf r))
           (take (length (requests (returnTags f c k replies))) replies)))"
proof -
  let ?run = "pages f c k 0 [] {} [] replies"
  have eq: "returnTags f c k replies = ?run" using assms by (rule returnTags_Inr)
  from pages_shape [of "{}" "[]" "[]" replies f c k 0 "[]"]
  obtain rd where rd: "replies = rd @ unread ?run"
    and len: "length (requests ?run) = length rd"
    and tags: "\<forall>tags. outcome ?run = Some (Inr tags) \<longrightarrow>
        tags = firstByAddress (concat (map (\<lambda>r. transformPoolsToTags f c (poolsOf r)) rd))"
    by auto
  have "take (length (requests ?run)) replies = rd"
    by (subst rd) (simp add: len)
  with tags assms show ?thesis by (simp add: eq)
qed

lemma transform_label:
  "t \<in> set (transformPoolsToTags f c pools) \<Longrightarrow> length (publicNameTag t) \<le> 50"
  by (auto simp: transformPoolsToTags_def tagOf_def tagName_length)

lemma pages_full:
  assumes "map fetchPools rs = map Inr (full @ [lst])"
    and "\<forall>ps \<in> set full. length ps = 1000"
    and "length lst \<noteq> 1000"
  shows "\<exists>tags. pages f c k ts allTags seen sent (rs @ rest) =
      \<lparr> outcome = Some (Inr tags),
        requests = sent @ map (fetchRequest k) (ts # map (\<lambda>ps. createdAtTimestamp (last ps)) full),
        unread = rest \<rparr>"
  using assms
proof (induction full arbitrary: rs ts allTags seen sent)
  case Nil
  then obtain r where rs: "rs = [r]" and r: "fetchPools r = Inr lst"
    by (cases rs) auto
  show ?case
    using r Nil.prems(3) by (simp add: rs filterSeen_eq)
next
  case (Cons p full)
  then obtain r rs' where rs: "rs = r # rs'" and r: "fetchPools r = Inr p"
    and rs': "map fetchPools rs' = map Inr (full @ [lst])"
    by (cases rs) auto
  from Cons.prems(2) have p: "length p = 1000" and full: "\<forall>ps \<in> set full. length ps = 1000"
    by simp_all
  let ?new = "firstByAddress (filter (\<lambda>t. contractAddress t \<notin> seen) (transformPoolsToTags f c p))"
  from Cons.IH [OF rs' full Cons.prems(3),
      of "createdAtTimestamp (last p)" "allTags @ ?new"
         "seen \<union> contractAddress ` set (transformPoolsToTags f c p)"
         "sent @ [fetchRequest k ts]"]
  show ?case
    using r p by (simp add: rs filterSeen_eq)
qed

lemma pages_requests:
  "\<exists>cs. requests (pages f c k ts allTags seen sent replies) = sent @ map (fetchRequest k) cs
        \<and> (replies \<noteq> [] \<longrightarrow> cs \<noteq> [])"
proof (induction replies arbitrary: ts allTags seen sent)
  case Nil
  show ?case by (simp add: exI [of _ "[]"])
next
  case (Cons r rs)
  show ?case
  proof (cases "fetchPools r")
    case (Inl t)
    then show ?thesis by (simp add: exI [of _ "[ts]"])
  next
    case (Inr pools)
    let ?T = "transformPoolsToTags f c pools"
    show ?thesis
    proof (cases "length pools = 1000")
      case True
      from Cons.IH [of "createdAtTimestamp (last pools)"
          "allTags @ firstByAddress (filter (\<lambda>t. contractAddress t \<notin> seen) ?T)"
          "seen \<union> contractAddress ` set ?T" "sent @ [fetchRequest k ts]"]
      obtain cs where "requests (pages f c k (createdAtTimestamp (last pools))
          (allTags @ firstByAddress (filter (\<lambda>t. contractAddress t \<notin> seen) ?T))
          (seen \<union> contractAddress ` set ?T) (sent @ [fetchRequest k ts]) rs)
          = (sent @ [fetchRequest k ts]) @ map (fetchRequest k) cs"
        by blast
      then show ?thesis
        using Inr True by (simp add: filterSeen_eq exI [of _ "ts # cs"])
    next
      case False
      then show ?thesis
        using Inr by (simp add: filterSeen_eq exI [of _ "[ts]"])
    qed
  qed
qed

lemma pages_outcome_not_missing:
  "outcome (pages f c k ts allTags seen sent replies) \<noteq> Some (Inl missingCredential)"
proof (induction replies arbitrary: ts allTags seen sent)
  case Nil
  show ?case by simp
next
  case (Cons r rs)
  show ?case
  proof (cases "fetchPools r")
    case (Inl t)
    then show ?thesis
      by (cases t) (simp_all add: fetchFailure_def missingCredential_def)
  next
    case (Inr pools)
    then show ?thesis
      using Cons.IH by (simp add: filterSeen_eq Let_def)
  qed
qed

lemma pages_outcome_not_unsupported:
  "outcome (pages f c k ts allTags seen sent replies) \<noteq> Some (Inl (unsupportedChain c'))"
proof (induction replies arbitrary: ts allTags seen sent)
  case Nil
  show ?case by simp
next
  case (Cons r rs)
  show ?case
  proof (cases "fetchPools r")
    case (Inl t)
    then show ?thesis
      by (cases t) (simp_all add: fetchFailure_def unsupportedChain_def)
  next
    case (Inr pools)
    then show ?thesis
      using Cons.IH by (simp add: filterSeen_eq Let_def)
  qed
qed

lemma toNumber_digits:
  assumes "ds \<noteq> []" and "list_all isDecimalDigit ds"
  shows "toNumber ds = MV (of_int (radixValue 10 ds))"
proof -
  from assms obtain c cs where ds: "ds = c # cs" and c: "isDecimalDigit c"
    by (cases ds) auto
  from assms have "isDecimalDigit (last ds)" by (simp add: list_all_iff)
  with c ds assms(1) have t: "trim ds = ds"
    by (intro trim_id) (simp_all add: digit_not_special)
  have x: "\<not> startsWith ds [a, b]" if "\<not> isDecimalDigit b" for a b
  proof (cases cs)
    case Nil
    then show ?thesis by (simp add: ds startsWith_Cons startsWith_Nil)
  next
    case (Cons d cs')
    with assms(2) ds have "isDecimalDigit d" by simp
    with that have "d \<noteq> b" by auto
    then show ?thesis by (simp add: ds Cons startsWith_Cons)
  qed
  have p: "\<not> startsWith ds ''0x''" "\<not> startsWith ds ''0X''" "\<not> startsWith ds ''0o''"
    "\<not> startsWith ds ''0O''" "\<not> startsWith ds ''0b''" "\<not> startsWith ds ''0B''"
    by (rule x, simp add: isDecimalDigit_def)+
  have tw: "takeWhile isDecimalDigit ds = ds"
    using assms(2) by (simp add: takeWhile_eq_all_conv list_all_iff)
  have sg: "\<not> startsWith ds ''+''" "\<not> startsWith ds ''-''" "\<not> startsWith ds ''Infinity''"
    using digit_not_special [OF c] unfolding ds by (simp_all add: startsWith_Cons)
  have "scanUnsigned ds = Some (MV (of_int (radixValue 10 ds)), [])"
    by (simp add: scanUnsigned_def sg tw Let_def startsWith_Nil scanExponent_def scale10_def
        assms(1))
  then show ?thesis
    using assms(1) by (simp add: toNumber_def t p scanDecimal_def sg Let_def)
qed

lemma is42161_int: "is42161 (MV (of_int v)) \<longleftrightarrow> v = 42161"
proof
  assume "is42161 (MV (of_int v))"
  then have "\<bar>(of_int v :: rat) - 42161\<bar> \<le> 1 / 2 ^ 38" by (simp add: is42161_def)
  then have "\<bar>(of_int (v - 42161) :: rat)\<bar> < 1" by simp
  then have "\<bar>v - 42161\<bar> < 1" by (simp only: of_int_abs [symmetric] of_int_less_1_iff)
  then show "v = 42161" by simp
next
  assume "v = 42161"
  then show "is42161 (MV (of_int v))" by (simp add: is42161_def)
qed

section \<open>The example records: lemmas\<close>

lemmas pool_eval = poolPlain_def poolLong_def poolMarkup_def poolNoToken1_def poolNoFee_def
  poolTextFee_def poolLongTick_def poolAgain_def poolHugeFee_def poolTieFee_def exPool_def
  exToken_def

lemma accepted_code:
  "accepted pool =
     (case token0 pool of None \<Rightarrow> False
      | Some t0 \<Rightarrow> (case token1 pool of None \<Rightarrow> False
          | Some t1 \<Rightarrow> \<not> tokenInvalid t0 \<and> \<not> tokenInvalid t1))"
  by (simp add: accepted_def tokenInvalid_iff split: option.splits)

lemma accepted_examples: "filter accepted [poolPlain, poolMarkup, poolNoToken1, poolLong] = [poolPlain, poolLong]"
  by (simp add: accepted_code pool_eval tokenInvalid_def tag_here_def startsWith_def)

lemmas markup_eval = tokenInvalid_def tag_here_def startsWith_def

lemma validOf_poolPlain:
  "validOf poolPlain = [(poolPlain, exToken ''Wrapped Ether'' ''WETH'', exToken ''USD Coin'' ''USDC'')]"
  by (simp add: validOf_def pool_eval markup_eval)

lemma validOf_poolLong:
  "validOf poolLong =
     [(poolLong, exToken ''Long'' ''EXTREMELYLONGTOKENNAME'', exToken ''Another'' ''ANOTHERLONGNAME'')]"
  by (simp add: validOf_def pool_eval markup_eval)

lemma validOf_poolAgain:
  "validOf poolAgain = [(poolAgain, exToken ''Arbitrum'' ''ARB'', exToken ''USD Coin'' ''USDC'')]"
  by (simp add: validOf_def pool_eval markup_eval)

lemma transform_eq: "transformPoolsToTags f c pools = map (tagOf f c) (concat (map validOf pools))"
  by (simp add: transformPoolsToTags_def filterPools_eq)

lemma fetchPools_okReply: "fetchPools (okReply pools) = Inr pools"
  by (simp add: fetchPools_def okReply_def)

lemma pool_ids:
  "pool_id poolPlain = ''0xa1''" "pool_id poolLong = ''0xa2''" "pool_id poolAgain = ''0xa1''"
  by (simp_all add: pool_eval)

lemma address_tagOf: "contractAddress (tagOf f c (p, a, b)) = ''eip155:'' @ c @ '':'' @ pool_id p"
  by (simp add: tagOf_def)

lemma fullPage_facts:
  "length fullPage = 1000" "last fullPage = poolPlain"
  by (simp_all add: fullPage_def)

lemma filterSeen_replicate:
  "filterSeen S (replicate (Suc n) t) =
     (if contractAddress t \<in> S then ([], S) else ([t], insert (contractAddress t) S))"
  by (auto simp: filterSeen_eq)

lemma transform_fullPage:
  "transformPoolsToTags f c fullPage =
     replicate (Suc 999) (tagOf f c
       (poolPlain, exToken ''Wrapped Ether'' ''WETH'', exToken ''USD Coin'' ''USDC''))"
proof -
  have "concat (map validOf (replicate n poolPlain)) =
      replicate n (poolPlain, exToken ''Wrapped Ether'' ''WETH'', exToken ''USD Coin'' ''USDC'')"
    for n by (induction n) (simp_all add: validOf_poolPlain)
  then show ?thesis by (simp add: transform_eq fullPage_def)
qed

lemma chain_42161: "is42161 (toNumber ''42161'')"
  by (simp add: toNumber_def trim_def isWhiteSpace_def startsWith_def scanDecimal_def
      scanUnsigned_def isDecimalDigit_def scanExponent_def radixValue_def digitValue_def
      scale10_def is42161_def)

lemma createdAt_poolPlain: "createdAtTimestamp poolPlain = 1700000000"
  by (simp add: pool_eval)

lemma filterSeen_fullPage:
  "filterSeen {} (transformPoolsToTags f c fullPage) =
     ([tagOf f c (poolPlain, exToken ''Wrapped Ether'' ''WETH'', exToken ''USD Coin'' ''USDC'')],
      {''eip155:'' @ c @ '':0xa1''})"
  by (simp only: transform_fullPage filterSeen_replicate) (simp add: address_tagOf pool_ids)

lemma transform_second:
  "transformPoolsToTags f c [poolAgain, poolLong, poolPlain] =
     [tagOf f c (poolAgain, exToken ''Arbitrum'' ''ARB'', exToken ''USD Coin'' ''USDC''),
      tagOf f c (poolLong, exToken ''Long'' ''EXTREMELYLONGTOKENNAME'',
        exToken ''Another'' ''ANOTHERLONGNAME''),
      tagOf f c (poolPlain, exToken ''Wrapped Ether'' ''WETH'', exToken ''USD Coin'' ''USDC'')]"
  by (simp add: transform_eq validOf_poolPlain validOf_poolLong validOf_poolAgain)

lemmas number_eval = toNumber_def trim_def isWhiteSpace_def startsWith_def scanDecimal_def
  scanUnsigned_def isDecimalDigit_def scanExponent_def radixValue_def radixLiteral_def
  digitValue_def scale10_def is42161_def

lemma chain_1: "\<not> is42161 (toNumber ''1'')"
  by (simp add: number_eval)

lemma placeholder_facts:
  "sublist ''[api-key]'' placeholderUrl" "\<not> sublist ''dummy'' placeholderUrl"
  by (simp_all add: placeholderUrl_def sublist_code)

lemma parseFloat_3000: "parseFloat ''3000'' = MV 3000"
  by (simp add: parseFloat_def number_eval)

lemma parseFloat_500: "parseFloat ''500'' = MV 500"
  by (simp add: parseFloat_def number_eval)


lemma twoDecimals_30: "twoDecimals 30 = ''0.30''"
  by (simp add: twoDecimals_def digitsOf.simps digitChar_def)

lemma twoDecimals_5: "twoDecimals 5 = ''0.05''"
  by (simp add: twoDecimals_def digitsOf.simps digitChar_def)

lemma fixed2_double_3000: "fixed2_double 3000 = ''0.30''"
  using fixed2_double_int [of 3000] by (simp add: twoDecimals_30)

lemma fixed2_double_500: "fixed2_double 500 = ''0.05''"
  using fixed2_double_int [of 500] by (simp add: twoDecimals_5)





lemma divideBy10000_150: "divideBy10000 (DFinite 150) = DFinite (1080863910568919 / 72057594037927936)"
  by code_simp

lemma doubleToFixed2_150: "doubleToFixed2 (DFinite (1080863910568919 / 72057594037927936)) = ''0.01''"
  by code_simp

lemma fixed2_double_150: "fixed2_double 150 = ''0.01''"
proof -
  have "roundDouble 150 = DFinite 150" using roundDouble_int [of 150] by simp
  then show ?thesis
    by (simp only: fixed2_double_def divideBy10000_150 doubleToFixed2_150)
qed


lemma parseFloat_150: "parseFloat ''150'' = MV 150"
  by (simp add: parseFloat_def number_eval)

lemma parseFloat_250: "parseFloat ''250'' = MV 250"
  by (simp add: parseFloat_def number_eval)



lemma divideBy10000_250: "divideBy10000 (DFinite 250) = DFinite (3602879701896397 / 144115188075855872)"
  by code_simp

lemma doubleToFixed2_250: "doubleToFixed2 (DFinite (3602879701896397 / 144115188075855872)) = ''0.03''"
  by code_simp

lemma fixed2_double_250: "fixed2_double 250 = ''0.03''"
proof -
  have "roundDouble 250 = DFinite 250" using roundDouble_int [of 250] by simp
  then show ?thesis
    by (simp only: fixed2_double_def divideBy10000_250 doubleToFixed2_250)
qed

lemma chain_decimal_point: "is42161 (toNumber ''42161.0'')"
  by (simp add: number_eval)

lemma chain_hexadecimal: "is42161 (toNumber '' 0xA4B1 '')"
  by (simp add: number_eval)

lemma chain_137: "\<not> is42161 (toNumber ''137'')"
  by (simp add: number_eval)

lemma transform_poolPlain:
  "transformPoolsToTags f c [poolPlain] =
     [tagOf f c (poolPlain, exToken ''Wrapped Ether'' ''WETH'', exToken ''USD Coin'' ''USDC'')]"
  by (simp add: transform_eq validOf_poolPlain)

lemma suffixOf_poolLong: "suffixOf fixed2_double poolLong = '' CL Pool (0.30%, tick: 60)''"
  by (simp add: suffixOf_def getFeePct_def toFixed2_def tickLabel_def pool_eval
      parseFloat_3000 fixed2_double_3000)

lemma suffixOf_poolLongTick:
  "suffixOf fixed2_double poolLongTick =
     '' CL Pool (0.05%, tick: 0123456789012345678901234567890123456789)''"
  by (simp add: suffixOf_def getFeePct_def toFixed2_def tickLabel_def pool_eval
      parseFloat_500 fixed2_double_500)

lemma symbols_poolLong:
  "token_symbol (exToken ''Long'' ''EXTREMELYLONGTOKENNAME'') = ''EXTREMELYLONGTOKENNAME''"
  "token_symbol (exToken ''Another'' ''ANOTHERLONGNAME'') = ''ANOTHERLONGNAME''"
  by (simp_all add: exToken_def)

lemma label_tagOf:
  "publicNameTag (tagOf f c (p, a, b)) = tagName (token_symbol a) (token_symbol b) (suffixOf f p)"
  by (simp add: tagOf_def)

lemma symbols_poolLongTick:
  "token_symbol (exToken ''Wrapped Ether'' ''WETH'') = ''WETH''"
  "token_symbol (exToken ''USD Coin'' ''USDC'') = ''USDC''"
  by (simp_all add: exToken_def)

lemma validOf_poolLongTick:
  "validOf poolLongTick =
     [(poolLongTick, exToken ''Wrapped Ether'' ''WETH'', exToken ''USD Coin'' ''USDC'')]"
  by (simp add: validOf_def pool_eval markup_eval)

lemma transform_first:
  "transformPoolsToTags f c [poolPlain, poolLong] =
     [tagOf f c (poolPlain, exToken ''Wrapped Ether'' ''WETH'', exToken ''USD Coin'' ''USDC''),
      tagOf f c (poolLong, exToken ''Long'' ''EXTREMELYLONGTOKENNAME'',
        exToken ''Another'' ''ANOTHERLONGNAME'')]"
  by (simp add: transform_eq validOf_poolPlain validOf_poolLong)

section \<open>C1: the label has at most 50 characters\<close>

text \<open>
  Claim C1. Whatever the chain id and the page, every tag the transformation produces has
  a \<open>Public Name Tag\<close> of at most 50 code units, and so has every tag that \<open>returnTags\<close>
  returns: the lengths of the symbols, of the fee tier and of the tick spacing do not
  matter, nor does the rendering of the fee.
\<close>

theorem label_at_most_50:
  "(\<forall>tag \<in> set (transformPoolsToTags fixed2 chainId pools). length (publicNameTag tag) \<le> 50)
   \<and> (\<forall>tags. outcome (returnTags fixed2 chainId apiKey replies) = Some (Inr tags) \<longrightarrow>
         (\<forall>tag \<in> set tags. length (publicNameTag tag) \<le> 50))"
proof (intro conjI allI impI ballI)
  fix tag assume "tag \<in> set (transformPoolsToTags fixed2 chainId pools)"
  then show "length (publicNameTag tag) \<le> 50" by (rule transform_label)
next
  fix tags tag
  assume out: "outcome (returnTags fixed2 chainId apiKey replies) = Some (Inr tags)"
    and mem: "tag \<in> set tags"
  let ?all = "concat (map (\<lambda>r. transformPoolsToTags fixed2 chainId (poolsOf r))
      (take (length (requests (returnTags fixed2 chainId apiKey replies))) replies))"
  from returnTags_shape [OF out] have "set tags \<subseteq> set ?all"
    using set_firstByAddress [of ?all] by simp
  with mem obtain r where "tag \<in> set (transformPoolsToTags fixed2 chainId (poolsOf r))"
    by auto
  then show "length (publicNameTag tag) \<le> 50" by (rule transform_label)
qed

theorem label_at_most_50_witness:
  "transformPoolsToTags fixed2_double ''42161'' [poolPlain, poolLong] =
     [tagOf fixed2_double ''42161''
        (poolPlain, exToken ''Wrapped Ether'' ''WETH'', exToken ''USD Coin'' ''USDC''),
      tagOf fixed2_double ''42161''
        (poolLong, exToken ''Long'' ''EXTREMELYLONGTOKENNAME'', exToken ''Another'' ''ANOTHERLONGNAME'')]
   \<and> outcome (returnTags fixed2_double ''42161'' ''key'' [okReply [poolPlain, poolLong]]) =
       Some (Inr (transformPoolsToTags fixed2_double ''42161'' [poolPlain, poolLong]))
   \<and> list_all (\<lambda>tag. length (publicNameTag tag) \<le> 50)
        (transformPoolsToTags fixed2_double ''42161'' [poolPlain, poolLong])
   \<and> length (publicNameTag (tagOf fixed2_double ''42161''
       (poolLong, exToken ''Long'' ''EXTREMELYLONGTOKENNAME'', exToken ''Another'' ''ANOTHERLONGNAME'')))
     \<le> 50"
proof -
  let ?page = "[poolPlain, poolLong]"
  let ?tags = "transformPoolsToTags fixed2_double ''42161'' ?page"
  note t = label_at_most_50 [of fixed2_double "''42161''" ?page "''key''" "[okReply ?page]"]
  have out: "outcome (returnTags fixed2_double ''42161'' ''key'' [okReply ?page]) = Some (Inr ?tags)"
    by (simp add: returnTags_def chain_42161 fetchPools_okReply transform_first address_tagOf
        pool_ids)
  with t have "\<forall>tag \<in> set ?tags. length (publicNameTag tag) \<le> 50" by blast
  then have a: "list_all (\<lambda>tag. length (publicNameTag tag) \<le> 50) ?tags"
    by (simp only: list_all_iff)
  then have b: "length (publicNameTag (tagOf fixed2_double ''42161''
       (poolLong, exToken ''Long'' ''EXTREMELYLONGTOKENNAME'', exToken ''Another'' ''ANOTHERLONGNAME'')))
     \<le> 50"
    by (simp add: transform_first)
  from out a b transform_first [of fixed2_double "''42161''"] show ?thesis by blast
qed

section \<open>C2: one tag per address, the first one, in order\<close>

text \<open>
  Claim C2. When \<open>returnTags\<close> returns, no two of its tags share a \<open>Contract Address\<close>.
  With \<open>produced\<close> the tags of all pages fetched, in the order fetched, the result is
  \<open>produced\<close> with every tag dropped whose address occurred earlier: it keeps the order
  of \<open>produced\<close>, and a tag whose address does not occur before it is kept.
\<close>

theorem returnTags_first_occurrence:
  assumes "outcome (returnTags fixed2 chainId apiKey replies) = Some (Inr tags)"
  shows "let fetched = take (length (requests (returnTags fixed2 chainId apiKey replies))) replies;
             produced = concat (map (\<lambda>r. transformPoolsToTags fixed2 chainId (poolsOf r)) fetched)
         in distinct (map contractAddress tags)
            \<and> tags = firstByAddress produced
            \<and> subseq tags produced
            \<and> (\<forall>pre t post. produced = pre @ t # post
                  \<and> contractAddress t \<notin> contractAddress ` set pre \<longrightarrow> t \<in> set tags)"
  unfolding Let_def returnTags_shape [OF assms, symmetric]
  using returnTags_shape [OF assms]
  by (metis distinct_firstByAddress subseq_firstByAddress firstByAddress_keeps_first)

theorem returnTags_first_occurrence_witness:
  "outcome (returnTags fixed2_double ''42161'' ''key''
       [okReply fullPage, okReply [poolAgain, poolLong, poolPlain]])
     = Some (Inr
         [tagOf fixed2_double ''42161''
            (poolPlain, exToken ''Wrapped Ether'' ''WETH'', exToken ''USD Coin'' ''USDC''),
          tagOf fixed2_double ''42161''
            (poolLong, exToken ''Long'' ''EXTREMELYLONGTOKENNAME'',
             exToken ''Another'' ''ANOTHERLONGNAME'')])
   \<and> distinct (map contractAddress
         [tagOf fixed2_double ''42161''
            (poolPlain, exToken ''Wrapped Ether'' ''WETH'', exToken ''USD Coin'' ''USDC''),
          tagOf fixed2_double ''42161''
            (poolLong, exToken ''Long'' ''EXTREMELYLONGTOKENNAME'',
             exToken ''Another'' ''ANOTHERLONGNAME'')])"
proof -
  let ?tags = "[tagOf fixed2_double ''42161''
            (poolPlain, exToken ''Wrapped Ether'' ''WETH'', exToken ''USD Coin'' ''USDC''),
          tagOf fixed2_double ''42161''
            (poolLong, exToken ''Long'' ''EXTREMELYLONGTOKENNAME'',
             exToken ''Another'' ''ANOTHERLONGNAME'')]"
  have out: "outcome (returnTags fixed2_double ''42161'' ''key''
      [okReply fullPage, okReply [poolAgain, poolLong, poolPlain]]) = Some (Inr ?tags)"
    by (simp add: returnTags_def chain_42161 fetchPools_okReply fullPage_facts
        filterSeen_fullPage transform_second address_tagOf pool_ids)
  from returnTags_first_occurrence [OF out] have "distinct (map contractAddress ?tags)"
    unfolding Let_def by (rule conjunct1)
  with out show ?thesis by blast
qed

section \<open>C3: how the budget is split between the symbols\<close>

text \<open>
  Claim C3. When \<open>symbol0/symbol1\<close> is over the budget, the code units left after the two
  markers are split with the first half rounded up and the second half rounded down. The
  source applies \<open>Math.ceil\<close> to the first length and \<open>Math.floor\<close> to the second, as the
  claim says, but to a half that \<open>Math.floor\<close> has already rounded down: the first symbol
  gets the half rounded down and the second the rest. With the symbols and the suffix of
  the specification's own example (17 code units to share) the source keeps 8 and 9 code
  units, where the claim keeps 9 and 8.
\<close>

theorem split_rounding_example:
  "map publicNameTag (transformPoolsToTags fixed2_double ''42161'' [poolLong])
     = [''EXTREMEL.../ANOTHERLO... CL Pool (0.30%, tick: 60)'']
   \<and> claimedLabel ''EXTREMELYLONGTOKENNAME'' ''ANOTHERLONGNAME''
         (suffixOf fixed2_double poolLong)
     = ''EXTREMELY.../ANOTHERL... CL Pool (0.30%, tick: 60)''
   \<and> map publicNameTag (transformPoolsToTags fixed2_double ''42161'' [poolLong])
     \<noteq> [claimedLabel ''EXTREMELYLONGTOKENNAME'' ''ANOTHERLONGNAME''
          (suffixOf fixed2_double poolLong)]"
  by (simp add: transform_eq validOf_poolLong label_tagOf symbols_poolLong suffixOf_poolLong
      tagName_def claimedLabel_def js_slice0_def)

text \<open>
  What the source computes when the suffix has at most 43 code units and
  \<open>symbol0/symbol1\<close> is over the budget: the two symbols, each cut to its share and
  followed by \<open>...\<close> only if it was longer than the share, then the whole suffix, with
  the shares as the source splits them.
\<close>

theorem tagName_shares:
  assumes "length suffixText \<le> 43"
    and "length symbol0 + 1 + length symbol1 > 49 - length suffixText"
  shows "tagName symbol0 symbol1 suffixText =
     (let available = 43 - length suffixText;
          len0 = available div 2;
          len1 = (available + 1) div 2
      in (if length symbol0 > len0 then take len0 symbol0 @ ''...'' else symbol0)
         @ ''/''
         @ (if length symbol1 > len1 then take len1 symbol1 @ ''...'' else symbol1)
         @ suffixText)"
proof -
  from assms have "length symbol0 + 1 + length symbol1 + length suffixText > 49" by linarith
  from tagName_cut [OF assms(1) this] show ?thesis by (simp only: Let_def)
qed

theorem tagName_shares_witness:
  "length '' CL Pool (0.30%, tick: 60)'' \<le> 43
   \<and> length ''EXTREMELYLONGTOKENNAME'' + 1 + length ''ANOTHERLONGNAME''
       > 49 - length '' CL Pool (0.30%, tick: 60)''
   \<and> tagName ''EXTREMELYLONGTOKENNAME'' ''ANOTHERLONGNAME'' '' CL Pool (0.30%, tick: 60)''
     = ''EXTREMEL.../ANOTHERLO... CL Pool (0.30%, tick: 60)''"
proof -
  have a: "length '' CL Pool (0.30%, tick: 60)'' \<le> 43" by simp
  have b: "length ''EXTREMELYLONGTOKENNAME'' + 1 + length ''ANOTHERLONGNAME''
       > 49 - length '' CL Pool (0.30%, tick: 60)''" by simp
  from tagName_shares [OF a b] a b show ?thesis by (simp add: Let_def)
qed

section \<open>C4: the fee percentage\<close>




text \<open>
  At the tie of the last statement the runtime goes either way: the fee tier 150 is
  printed as \<open>0.01%\<close>, because the double nearest to 0.015 lies below it, and 250 as
  \<open>0.03%\<close>.
\<close>

lemma getFeePct_ties:
  "getFeePct fixed2_double poolTieFee = ''0.01%''
   \<and> getFeePct fixed2_double (poolTieFee \<lparr> feeTier := ''250'' \<rparr>) = ''0.03%''"
  by (simp add: getFeePct_def toFixed2_def pool_eval parseFloat_150 parseFloat_250
      fixed2_double_150 fixed2_double_250)

section \<open>C5: when the suffix survives\<close>

text \<open>
  Claim C5 says that the label always ends with the whole suffix. The safety check cuts
  the label at 50 code units from the right, so a suffix that leaves no room loses its
  end: with a tick spacing of 40 digits the label stops in the middle of the tick
  spacing.
\<close>

theorem suffix_cut_counterexample:
  "suffixOf fixed2_double poolLongTick
     = '' CL Pool (0.05%, tick: 0123456789012345678901234567890123456789)''
   \<and> map publicNameTag (transformPoolsToTags fixed2_double ''42161'' [poolLongTick])
     = [''.../... CL Pool (0.05%, tick: 01234567890123456789'']
   \<and> \<not> suffix (suffixOf fixed2_double poolLongTick)
         ''.../... CL Pool (0.05%, tick: 01234567890123456789''"
proof -
  have l: "map publicNameTag (transformPoolsToTags fixed2_double ''42161'' [poolLongTick])
     = [''.../... CL Pool (0.05%, tick: 01234567890123456789'']"
    by (simp add: transform_eq validOf_poolLongTick label_tagOf symbols_poolLongTick
        suffixOf_poolLongTick tagName_def js_slice0_def)
  have "\<not> suffix '' CL Pool (0.05%, tick: 0123456789012345678901234567890123456789)''
         ''.../... CL Pool (0.05%, tick: 01234567890123456789''"
    by (auto dest: suffix_length_le)
  with l show ?thesis by (simp only: suffixOf_poolLongTick) simp
qed

text \<open>
  Claim C5, amended. The label of an emitted tag ends with the whole suffix
  \<open> CL Pool (feePct, tick: tickSpacing)\<close> whenever the suffix has at most 43 code units,
  or \<open>symbol0/symbol1\<close> and the suffix together have at most 49: then only the symbols
  are shortened.
\<close>

theorem label_ends_with_suffix:
  assumes "length (suffixOf fixed2 pool) \<le> 43
     \<or> length (token_symbol t0) + 1 + length (token_symbol t1)
         + length (suffixOf fixed2 pool) \<le> 49"
  shows "suffix ('' CL Pool ('' @ getFeePct fixed2 pool @ '', tick: '' @ tickLabel pool @ '')'')
           (publicNameTag (tagOf fixed2 chainId (pool, t0, t1)))"
  using tagName_ends_with_suffix [OF assms] by (simp add: label_tagOf suffixOf_def)

theorem label_ends_with_suffix_witness:
  "length (suffixOf fixed2_double poolLong) \<le> 43
   \<and> suffix '' CL Pool (0.30%, tick: 60)''
       (publicNameTag (tagOf fixed2_double ''42161''
          (poolLong, exToken ''Long'' ''EXTREMELYLONGTOKENNAME'',
           exToken ''Another'' ''ANOTHERLONGNAME'')))"
proof -
  have a: "length (suffixOf fixed2_double poolLong) \<le> 43"
    by (simp add: suffixOf_poolLong)
  then have "length (suffixOf fixed2_double poolLong) \<le> 43
     \<or> length (token_symbol (exToken ''Long'' ''EXTREMELYLONGTOKENNAME'')) + 1
         + length (token_symbol (exToken ''Another'' ''ANOTHERLONGNAME''))
         + length (suffixOf fixed2_double poolLong) \<le> 49" by (rule disjI1)
  from label_ends_with_suffix [OF this, of "''42161''"]
  have "suffix (suffixOf fixed2_double poolLong)
       (publicNameTag (tagOf fixed2_double ''42161''
          (poolLong, exToken ''Long'' ''EXTREMELYLONGTOKENNAME'',
           exToken ''Another'' ''ANOTHERLONGNAME'')))"
    by (simp only: suffixOf_def)
  with a show ?thesis by (simp only: suffixOf_poolLong)
qed

section \<open>C6: decoding a symbol\<close>




section \<open>C7: which records the transformer excludes\<close>

text \<open>
  Claim C7. The tags of a page are the tags of its accepted records, in order: a record
  is accepted when both token records are there and neither token's name or symbol
  contains a span \<open><...>\<close>. A record with a token record missing adds nothing to the
  diagnostics; a record with both tokens and markup adds at least one entry. No record
  stops the others from producing their tags.
\<close>

theorem transform_excludes_exactly:
  "transformPoolsToTags fixed2 chainId pools =
     map (\<lambda>p. tagOf fixed2 chainId (p, the (token0 p), the (token1 p))) (filter accepted pools)
   \<and> rejectedNamesOf pools = concat (map rejectsOf pools)
   \<and> (\<forall>p \<in> set pools. token0 p = None \<or> token1 p = None \<longrightarrow> rejectsOf p = [])
   \<and> (\<forall>p \<in> set pools. token0 p \<noteq> None \<and> token1 p \<noteq> None \<and> \<not> accepted p
         \<longrightarrow> rejectsOf p \<noteq> [])"
proof (intro conjI ballI impI)
  show "transformPoolsToTags fixed2 chainId pools =
     map (\<lambda>p. tagOf fixed2 chainId (p, the (token0 p), the (token1 p))) (filter accepted pools)"
    by (simp add: transformPoolsToTags_def filterPools_eq validOf_accepted o_def)
  show "rejectedNamesOf pools = concat (map rejectsOf pools)"
    by (simp add: rejectedNamesOf_def filterPools_eq)
next
  fix p :: Pool assume "token0 p = None \<or> token1 p = None"
  then show "rejectsOf p = []" by (rule rejectsOf_silent)
next
  fix p :: Pool assume "token0 p \<noteq> None \<and> token1 p \<noteq> None \<and> \<not> accepted p"
  then show "rejectsOf p \<noteq> []" by (simp add: rejectsOf_markup)
qed

theorem transform_excludes_exactly_witness:
  "map contractAddress
     (transformPoolsToTags fixed2_double ''42161'' [poolPlain, poolMarkup, poolNoToken1, poolLong])
     = [''eip155:42161:0xa1'', ''eip155:42161:0xa2'']
   \<and> rejectedNamesOf [poolPlain, poolMarkup, poolNoToken1, poolLong]
     = [''Bad <b>Coin</b>, Symbol: BAD'']
   \<and> rejectsOf poolNoToken1 = []
   \<and> \<not> accepted poolMarkup
   \<and> rejectsOf poolMarkup \<noteq> []"
proof -
  let ?page = "[poolPlain, poolMarkup, poolNoToken1, poolLong]"
  note t = transform_excludes_exactly [of fixed2_double "''42161''" ?page]
  from t have "transformPoolsToTags fixed2_double ''42161'' ?page =
      map (\<lambda>p. tagOf fixed2_double ''42161'' (p, the (token0 p), the (token1 p)))
        [poolPlain, poolLong]"
    by (simp only: accepted_examples)
  then have a: "map contractAddress (transformPoolsToTags fixed2_double ''42161'' ?page)
      = [''eip155:42161:0xa1'', ''eip155:42161:0xa2'']"
    by (simp add: tagOf_def pool_eval)
  from t have "rejectedNamesOf ?page = concat (map rejectsOf ?page)" by blast
  then have b: "rejectedNamesOf ?page = [''Bad <b>Coin</b>, Symbol: BAD'']"
    by (simp add: rejectsOf_def pool_eval tokenInvalid_def tag_here_def startsWith_def
        rejectedName_def)
  have n: "token1 poolNoToken1 = None"
    by (simp add: pool_eval)
  from t have "\<forall>p \<in> set ?page. token0 p = None \<or> token1 p = None \<longrightarrow> rejectsOf p = []"
    by blast
  with n have c: "rejectsOf poolNoToken1 = []" by simp
  have m: "token0 poolMarkup \<noteq> None \<and> token1 poolMarkup \<noteq> None \<and> \<not> accepted poolMarkup"
    by (simp add: accepted_code pool_eval tokenInvalid_def tag_here_def startsWith_def)
  from t have "\<forall>p \<in> set ?page. token0 p \<noteq> None \<and> token1 p \<noteq> None \<and> \<not> accepted p
      \<longrightarrow> rejectsOf p \<noteq> []"
    by blast
  with m have d: "rejectsOf poolMarkup \<noteq> []" by simp
  from a b c d m show ?thesis by blast
qed

section \<open>C8: invalid inputs fail before any request\<close>

text \<open>
  Claim C8 makes \<open>returnTags\<close> fail with the unsupported-chain error for every chain id
  that does not stringify to the integer 42161. The test of the source is
  \<^verbatim>\<open>Number(chainId) !== 42161\<close>, on the number that the chain id converts to, and other
  texts than \<open>42161\<close> convert to that number. With the chain id \<open>42161.0\<close> the check passes
  and the tags are returned, under that chain id; with \<open>0xA4B1\<close> between spaces and no
  credential the failure is the missing credential, not the chain.
\<close>

theorem chain_text_counterexample:
  "''42161.0'' \<noteq> ''42161''
   \<and> returnTags fixed2_double ''42161.0'' ''key'' [okReply [poolPlain]] =
       \<lparr> outcome = Some (Inr [tagOf fixed2_double ''42161.0''
           (poolPlain, exToken ''Wrapped Ether'' ''WETH'', exToken ''USD Coin'' ''USDC'')]),
         requests = [fetchRequest ''key'' 0], unread = [] \<rparr>
   \<and> '' 0xA4B1 '' \<noteq> ''42161''
   \<and> returnTags fixed2_double '' 0xA4B1 '' [] [okReply [poolPlain]] =
       \<lparr> outcome = Some (Inl (Error ''API key is required'')),
         requests = [], unread = [okReply [poolPlain]] \<rparr>"
  by (simp add: returnTags_def chain_decimal_point chain_hexadecimal fetchPools_okReply
      transform_poolPlain missingCredential_def)

text \<open>
  Claim C8, amended: the condition on the chain id is \<^verbatim>\<open>Number(chainId) === 42161\<close>.
  \<open>returnTags\<close> ends with the unsupported-chain error exactly when \<open>Number\<close> does not
  convert the chain id to 42161, that is, when the text is not numeric or the double
  nearest to its value is not 42161; then no request is sent and no reply is read. When
  it does and the credential is empty, \<open>returnTags\<close> fails with the missing-credential
  error, again without a request. A chain id of decimal digits passes the check exactly
  when its value is 42161. So \<open>returnTags("1", "key")\<close> fails with the unsupported-chain
  error and \<open>returnTags("42161", "")\<close> with the missing-credential error, and the chain
  is checked first: chain id 1 with an empty credential gives the unsupported-chain
  error.
\<close>

theorem returnTags_fails_fast:
  "(outcome (returnTags fixed2 chainId apiKey replies) = Some (Inl (unsupportedChain chainId))
      \<longleftrightarrow> \<not> is42161 (toNumber chainId))
   \<and> (\<not> is42161 (toNumber chainId) \<longrightarrow>
       returnTags fixed2 chainId apiKey replies =
         \<lparr> outcome = Some (Inl (unsupportedChain chainId)), requests = [], unread = replies \<rparr>)
   \<and> (is42161 (toNumber chainId) \<and> apiKey = [] \<longrightarrow>
       returnTags fixed2 chainId apiKey replies =
         \<lparr> outcome = Some (Inl missingCredential), requests = [], unread = replies \<rparr>)
   \<and> (toNumber chainId = MV q \<longrightarrow>
       (is42161 (toNumber chainId) \<longleftrightarrow> roundDouble q = DFinite 42161))
   \<and> (chainId \<noteq> [] \<and> list_all isDecimalDigit chainId \<longrightarrow>
       (is42161 (toNumber chainId) \<longleftrightarrow> radixValue 10 chainId = 42161))
   \<and> returnTags fixed2 ''1'' ''key'' replies =
         \<lparr> outcome = Some (Inl (unsupportedChain ''1'')), requests = [], unread = replies \<rparr>
   \<and> returnTags fixed2 ''42161'' [] replies =
         \<lparr> outcome = Some (Inl missingCredential), requests = [], unread = replies \<rparr>
   \<and> returnTags fixed2 ''1'' [] replies =
         \<lparr> outcome = Some (Inl (unsupportedChain ''1'')), requests = [], unread = replies \<rparr>"
proof (intro conjI impI)
  show "outcome (returnTags fixed2 chainId apiKey replies) = Some (Inl (unsupportedChain chainId))
      \<longleftrightarrow> \<not> is42161 (toNumber chainId)"
  proof (cases "is42161 (toNumber chainId)")
    case False
    then show ?thesis by (simp add: returnTags_def)
  next
    case True
    have "missingCredential \<noteq> unsupportedChain chainId"
      by (simp add: missingCredential_def unsupportedChain_def)
    with True show ?thesis
      by (simp add: returnTags_def pages_outcome_not_unsupported)
  qed
  show "returnTags fixed2 chainId apiKey replies =
         \<lparr> outcome = Some (Inl (unsupportedChain chainId)), requests = [], unread = replies \<rparr>"
    if "\<not> is42161 (toNumber chainId)"
    using that by (simp add: returnTags_def)
  show "returnTags fixed2 chainId apiKey replies =
         \<lparr> outcome = Some (Inl missingCredential), requests = [], unread = replies \<rparr>"
    if "is42161 (toNumber chainId) \<and> apiKey = []"
    using that by (simp add: returnTags_def)
  show "is42161 (toNumber chainId) \<longleftrightarrow> roundDouble q = DFinite 42161"
    if "toNumber chainId = MV q"
    using that by (simp add: is42161_roundDouble)
  show "is42161 (toNumber chainId) \<longleftrightarrow> radixValue 10 chainId = 42161"
    if "chainId \<noteq> [] \<and> list_all isDecimalDigit chainId"
    using that by (simp add: toNumber_digits is42161_int)
  show "returnTags fixed2 ''1'' ''key'' replies =
         \<lparr> outcome = Some (Inl (unsupportedChain ''1'')), requests = [], unread = replies \<rparr>"
    by (simp add: returnTags_def chain_1)
  show "returnTags fixed2 ''42161'' [] replies =
         \<lparr> outcome = Some (Inl missingCredential), requests = [], unread = replies \<rparr>"
    by (simp add: returnTags_def chain_42161)
  show "returnTags fixed2 ''1'' [] replies =
         \<lparr> outcome = Some (Inl (unsupportedChain ''1'')), requests = [], unread = replies \<rparr>"
    by (simp add: returnTags_def chain_1)
qed

theorem returnTags_fails_fast_witness:
  "\<not> is42161 (toNumber ''137'')
   \<and> returnTags fixed2_double ''137'' ''key'' [okReply [poolPlain]] =
       \<lparr> outcome = Some (Inl (Error ''Unsupported Chain ID: 137. Only Arbitrum (42161) is supported.'')),
         requests = [], unread = [okReply [poolPlain]] \<rparr>
   \<and> is42161 (toNumber '' 0xA4B1 '')
   \<and> returnTags fixed2_double '' 0xA4B1 '' [] [okReply [poolPlain]] =
       \<lparr> outcome = Some (Inl (Error ''API key is required'')),
         requests = [], unread = [okReply [poolPlain]] \<rparr>
   \<and> outcome (returnTags fixed2_double '' 0xA4B1 '' [] [okReply [poolPlain]])
       \<noteq> Some (Inl (unsupportedChain '' 0xA4B1 ''))
   \<and> toNumber '' 0xA4B1 '' = MV 42161 \<and> roundDouble 42161 = DFinite 42161
   \<and> list_all isDecimalDigit ''042161'' \<and> radixValue 10 ''042161'' = 42161
   \<and> is42161 (toNumber ''042161'')
   \<and> outcome (returnTags fixed2_double ''042161'' ''key'' [okReply [poolPlain]])
       \<noteq> Some (Inl (unsupportedChain ''042161''))"
proof -
  note a = chain_137
  note b = chain_hexadecimal
  have c: "''042161'' \<noteq> [] \<and> list_all isDecimalDigit ''042161''"
    by (simp add: isDecimalDigit_def)
  have d: "radixValue 10 ''042161'' = 42161"
    by (simp add: radixValue_def digitValue_def)
  note t1 = returnTags_fails_fast [of fixed2_double "''137''" "''key''" "[okReply [poolPlain]]" 137]
  note t2 = returnTags_fails_fast [of fixed2_double "'' 0xA4B1 ''" "[]" "[okReply [poolPlain]]" 42161]
  note t3 = returnTags_fails_fast [of fixed2_double "''042161''" "''key''" "[okReply [poolPlain]]" 42161]
  from t1 a have e: "returnTags fixed2_double ''137'' ''key'' [okReply [poolPlain]] =
       \<lparr> outcome = Some (Inl (Error ''Unsupported Chain ID: 137. Only Arbitrum (42161) is supported.'')),
         requests = [], unread = [okReply [poolPlain]] \<rparr>"
    by (simp add: unsupportedChain_def)
  from t2 b have f: "returnTags fixed2_double '' 0xA4B1 '' [] [okReply [poolPlain]] =
       \<lparr> outcome = Some (Inl (Error ''API key is required'')),
         requests = [], unread = [okReply [poolPlain]] \<rparr>"
    by (simp add: missingCredential_def)
  from t2 b have g: "outcome (returnTags fixed2_double '' 0xA4B1 '' [] [okReply [poolPlain]])
       \<noteq> Some (Inl (unsupportedChain '' 0xA4B1 ''))"
    by blast
  have j: "toNumber '' 0xA4B1 '' = MV 42161" by (simp add: number_eval)
  with t2 b have k: "roundDouble 42161 = DFinite 42161" by blast
  from t3 c d have h: "is42161 (toNumber ''042161'')" by blast
  with t3 have i: "outcome (returnTags fixed2_double ''042161'' ''key'' [okReply [poolPlain]])
       \<noteq> Some (Inl (unsupportedChain ''042161''))"
    by blast
  from a b c d e f g h i j k show ?thesis by blast
qed

section \<open>C9: the loop stops after the first short page\<close>

text \<open>
  Claim C9. On a supported chain and with a credential, when the first \<open>N\<close> replies
  deliver pages of exactly 1000 records and the next one a page of fewer than 1000,
  \<open>returnTags\<close> returns successfully after \<open>N + 1\<close> requests and reads no further reply.
  The first request carries the cursor 0, and the request after a full page carries the
  creation timestamp of the last raw record of that page.
\<close>

theorem returnTags_pagination:
  assumes "is42161 (toNumber chainId)" and "apiKey \<noteq> []"
    and "map fetchPools replies = map Inr (full @ [lst])"
    and "\<forall>ps \<in> set full. length ps = 1000"
    and "length lst < 1000"
  shows "(\<exists>tags. outcome (returnTags fixed2 chainId apiKey (replies @ rest)) = Some (Inr tags))
    \<and> length (requests (returnTags fixed2 chainId apiKey (replies @ rest))) = length full + 1
    \<and> map snd (requests (returnTags fixed2 chainId apiKey (replies @ rest)))
        = 0 # map (\<lambda>ps. createdAtTimestamp (last ps)) full
    \<and> unread (returnTags fixed2 chainId apiKey (replies @ rest)) = rest"
proof -
  from assms(5) have "length lst \<noteq> 1000" by simp
  from pages_full [OF assms(3,4) this, of fixed2 chainId apiKey 0 "[]" "{}" "[]" rest]
  obtain tags where "pages fixed2 chainId apiKey 0 [] {} [] (replies @ rest) =
      \<lparr> outcome = Some (Inr tags),
        requests = map (fetchRequest apiKey) (0 # map (\<lambda>ps. createdAtTimestamp (last ps)) full),
        unread = rest \<rparr>"
    by auto
  then show ?thesis
    using assms(1,2) by (simp add: returnTags_def fetchRequest_def o_def)
qed

theorem returnTags_pagination_witness:
  "length (requests (returnTags fixed2_double ''42161'' ''key''
       ([okReply fullPage, okReply [poolAgain, poolLong]] @ [okReply [poolLong]]))) = 2
   \<and> map snd (requests (returnTags fixed2_double ''42161'' ''key''
       ([okReply fullPage, okReply [poolAgain, poolLong]] @ [okReply [poolLong]])))
     = [0, 1700000000]
   \<and> unread (returnTags fixed2_double ''42161'' ''key''
       ([okReply fullPage, okReply [poolAgain, poolLong]] @ [okReply [poolLong]]))
     = [okReply [poolLong]]
   \<and> (\<exists>tags. outcome (returnTags fixed2_double ''42161'' ''key''
       ([okReply fullPage, okReply [poolAgain, poolLong]] @ [okReply [poolLong]]))
     = Some (Inr tags))"
proof -
  have a: "map fetchPools [okReply fullPage, okReply [poolAgain, poolLong]]
      = map Inr ([fullPage] @ [[poolAgain, poolLong]])"
    by (simp add: fetchPools_okReply)
  have b: "\<forall>ps \<in> set [fullPage]. length ps = 1000"
    by (simp add: fullPage_facts)
  have c: "length [poolAgain, poolLong] < 1000" by simp
  have d: "''key'' \<noteq> []" by simp
  from returnTags_pagination [OF chain_42161 d a b c, of fixed2_double "[okReply [poolLong]]"]
  show ?thesis by (simp add: fullPage_facts createdAt_poolPlain)
qed

section \<open>C10: the placeholder in the endpoint\<close>

text \<open>
  Claim C10. \<open>endpoint\<close> returns the URL with the literal \<open>[api-key]\<close> when the key is
  absent, empty or the text \<open>dummy\<close>, and that URL does not contain \<open>dummy\<close>; for any
  other key the URL has the key in the path. The key \<open>dummy\<close> passes the credential check
  of \<open>returnTags\<close> (requests are sent), and every request then goes to the placeholder
  URL.
\<close>

theorem endpoint_placeholder:
  "endpoint None = placeholderUrl
   \<and> endpoint (Some []) = placeholderUrl
   \<and> endpoint (Some ''dummy'') = placeholderUrl
   \<and> sublist ''[api-key]'' placeholderUrl
   \<and> \<not> sublist ''dummy'' placeholderUrl
   \<and> (k \<noteq> [] \<and> k \<noteq> ''dummy'' \<longrightarrow>
        endpoint (Some k) =
          ''https://gateway-arbitrum.network.thegraph.com/api/'' @ k
          @ ''/subgraphs/id/ATQTt3wRTgXy4canCh6t1yeczAz4ZuEkFQL2mrLXEMyQ''
        \<and> sublist k (endpoint (Some k)))
   \<and> (is42161 (toNumber chainId) \<longrightarrow>
        outcome (returnTags fixed2 chainId ''dummy'' replies) \<noteq> Some (Inl missingCredential)
        \<and> (replies \<noteq> [] \<longrightarrow> requests (returnTags fixed2 chainId ''dummy'' replies) \<noteq> [])
        \<and> (\<forall>q \<in> set (requests (returnTags fixed2 chainId ''dummy'' replies)).
              fst q = placeholderUrl))"
proof (intro conjI impI)
  show "endpoint None = placeholderUrl" "endpoint (Some []) = placeholderUrl"
    "endpoint (Some ''dummy'') = placeholderUrl"
    by (simp_all add: endpoint_def placeholderUrl_def subgraphId_def)
  show "sublist ''[api-key]'' placeholderUrl" "\<not> sublist ''dummy'' placeholderUrl"
    by (rule placeholder_facts)+
next
  assume k: "k \<noteq> [] \<and> k \<noteq> ''dummy''"
  then show e: "endpoint (Some k) =
      ''https://gateway-arbitrum.network.thegraph.com/api/'' @ k
      @ ''/subgraphs/id/ATQTt3wRTgXy4canCh6t1yeczAz4ZuEkFQL2mrLXEMyQ''"
    by (simp add: endpoint_def subgraphId_def)
  show "sublist k (endpoint (Some k))"
    unfolding e by (rule sublist_appendI)
next
  assume chain: "is42161 (toNumber chainId)"
  let ?run = "pages fixed2 chainId ''dummy'' 0 [] {} [] replies"
  have eq: "returnTags fixed2 chainId ''dummy'' replies = ?run"
    using chain by (simp add: returnTags_def)
  from pages_requests [of fixed2 chainId "''dummy''" 0 "[]" "{}" "[]" replies]
  obtain cs where cs: "requests ?run = map (fetchRequest ''dummy'') cs"
    and ne: "replies \<noteq> [] \<longrightarrow> cs \<noteq> []"
    by auto
  show "outcome (returnTags fixed2 chainId ''dummy'' replies) \<noteq> Some (Inl missingCredential)"
    unfolding eq by (rule pages_outcome_not_missing)
  show "requests (returnTags fixed2 chainId ''dummy'' replies) \<noteq> []" if "replies \<noteq> []"
    using that ne by (simp add: eq cs)
  show "\<forall>q \<in> set (requests (returnTags fixed2 chainId ''dummy'' replies)). fst q = placeholderUrl"
    by (auto simp: eq cs fetchRequest_def endpoint_def placeholderUrl_def subgraphId_def)
qed

theorem endpoint_placeholder_witness:
  "endpoint (Some ''3f2a9c'') =
     ''https://gateway-arbitrum.network.thegraph.com/api/3f2a9c/subgraphs/id/ATQTt3wRTgXy4canCh6t1yeczAz4ZuEkFQL2mrLXEMyQ''
   \<and> sublist ''3f2a9c'' (endpoint (Some ''3f2a9c''))
   \<and> requests (returnTags fixed2_double ''42161'' ''dummy'' [okReply [poolPlain]]) \<noteq> []
   \<and> list_all (\<lambda>q. fst q = placeholderUrl)
        (requests (returnTags fixed2_double ''42161'' ''dummy'' [okReply [poolPlain]]))"
proof -
  note t = endpoint_placeholder [of "''3f2a9c''" "''42161''" fixed2_double "[okReply [poolPlain]]"]
  have k: "''3f2a9c'' \<noteq> [] \<and> ''3f2a9c'' \<noteq> ''dummy''" by simp
  from t k have a: "endpoint (Some ''3f2a9c'') =
      ''https://gateway-arbitrum.network.thegraph.com/api/'' @ ''3f2a9c''
      @ ''/subgraphs/id/ATQTt3wRTgXy4canCh6t1yeczAz4ZuEkFQL2mrLXEMyQ''"
    and b: "sublist ''3f2a9c'' (endpoint (Some ''3f2a9c''))"
    by blast+
  have r: "[okReply [poolPlain]] \<noteq> []" by simp
  from t chain_42161 r
  have c: "requests (returnTags fixed2_double ''42161'' ''dummy'' [okReply [poolPlain]]) \<noteq> []"
    and d: "\<forall>q \<in> set (requests (returnTags fixed2_double ''42161'' ''dummy''
        [okReply [poolPlain]])). fst q = placeholderUrl"
    by blast+
  from a have a': "endpoint (Some ''3f2a9c'') =
     ''https://gateway-arbitrum.network.thegraph.com/api/3f2a9c/subgraphs/id/ATQTt3wRTgXy4canCh6t1yeczAz4ZuEkFQL2mrLXEMyQ''"
    by simp
  show ?thesis
    unfolding list_all_iff using a' b c d by blast
qed

end
